theory Spec2Isabelle
  imports Main "HOL-Library.Word"
begin

section \<open>ElasticHashMap: data model\<close>

text \<open>
  The embedding follows \<^verbatim>\<open>src/ElasticHashMap.hpp\<close>. \<^verbatim>\<open>size_t\<close> is a 64-bit
  unsigned integer: \<open>+\<close>, \<open>-\<close> and \<open>*\<close> wrap around as in C++. A \<^verbatim>\<open>std::vector\<close>
  is a list; the vector of a \<^verbatim>\<open>Subarray\<close> is created with \<open>capacity\<close> elements and is never
  resized. Allocation failure is outside the model.

  \<^verbatim>\<open>Slot()\<close> default-initialises \<open>key\<close> and \<open>value\<close>; the model takes the content of those
  two fields as parameters \<open>k0\<close> and \<open>v0\<close> of the constructor. No function of the class reads
  them while \<open>occupied\<close> is false.

  The comparison \<^verbatim>\<open>==\<close> of keys is equality, and the hasher is a function of the key alone.
\<close>

type_synonym size_t = "64 word"

record ('k, 'v) Slot =
  occupied :: bool
  key :: 'k
  "value" :: 'v

record ('k, 'v) Subarray =
  slots :: "('k, 'v) Slot list"
  size :: size_t
  capacity :: size_t

record ('k, 'v) ElasticHashMap =
  subarrays :: "('k, 'v) Subarray list"
  m_hasher :: "'k \<Rightarrow> size_t"

text \<open>Both \<^verbatim>\<open>throw\<close> statements raise a \<^verbatim>\<open>std::runtime_error\<close>; it carries its message.\<close>

datatype error = runtime_error string

text \<open>\<^verbatim>\<open>Slot() : occupied(false) {}\<close>\<close>

definition Slot_default :: "'k \<Rightarrow> 'v \<Rightarrow> ('k, 'v) Slot" where
  "Slot_default k0 v0 = \<lparr>occupied = False, key = k0, value = v0\<rparr>"

text \<open>\<^verbatim>\<open>Subarray(size_t cap) : size(0), capacity(cap) { slots.resize(cap); }\<close>\<close>

definition Subarray_ctor :: "'k \<Rightarrow> 'v \<Rightarrow> size_t \<Rightarrow> ('k, 'v) Subarray" where
  "Subarray_ctor k0 v0 cap =
     \<lparr>slots = replicate (unat cap) (Slot_default k0 v0), size = 0, capacity = cap\<rparr>"

section \<open>Constructor\<close>

text \<open>The \<^verbatim>\<open>while (remaining > 0)\<close> loop of the constructor (lines 67 to 75).\<close>

function ctor_loop ::
  "'k \<Rightarrow> 'v \<Rightarrow> size_t \<Rightarrow> ('k, 'v) Subarray list \<Rightarrow> ('k, 'v) Subarray list" where
  "ctor_loop k0 v0 remaining subs =
     (if remaining > 0 then
        (let subCap = max 1 (remaining div 2);
             subCap = (if subCap < 4 \<and> remaining < 4 then remaining else subCap)
         in ctor_loop k0 v0 (remaining - subCap) (subs @ [Subarray_ctor k0 v0 subCap]))
      else subs)"
  by pat_completeness auto
termination
proof (relation "measure (\<lambda>(k0, v0, remaining, subs). unat remaining)")
  show "wf (measure (\<lambda>(k0 :: 'k, v0 :: 'v, remaining, subs :: ('k, 'v) Subarray list).
          unat remaining))"
    by simp
next
  fix k0 :: 'k and v0 :: 'v and remaining :: size_t
    and subs :: "('k, 'v) Subarray list" and half final
  assume pos: "0 < remaining" and half: "half = max 1 (remaining div 2)"
    and final: "final = (if half < 4 \<and> remaining < 4 then remaining else half)"
  have one: "1 \<le> remaining"
    using pos by (simp add: word_le_nat_alt word_less_nat_alt)
  have "remaining div 2 \<le> remaining"
    by (simp add: word_le_nat_alt unat_div)
  with one have "half \<le> remaining"
    unfolding half by (simp add: max_def)
  hence le: "final \<le> remaining"
    unfolding final by simp
  have "1 \<le> half"
    unfolding half by simp
  hence "1 \<le> final"
    unfolding final using one by simp
  hence "0 < unat final"
    by (simp add: word_le_nat_alt)
  moreover have "unat (remaining - final) = unat remaining - unat final"
    using le by (simp add: unat_sub)
  moreover have "unat final \<le> unat remaining"
    using le by (simp add: word_le_nat_alt)
  ultimately show "((k0, v0, remaining - final, subs @ [Subarray_ctor k0 v0 final]),
      (k0, v0, remaining, subs)) \<in> measure (\<lambda>(k0, v0, remaining, subs). unat remaining)"
    by simp
qed

declare ctor_loop.simps [simp del]

definition ElasticHashMap_ctor ::
  "'k \<Rightarrow> 'v \<Rightarrow> size_t \<Rightarrow> ('k \<Rightarrow> size_t) \<Rightarrow> ('k, 'v) ElasticHashMap" where
  "ElasticHashMap_ctor k0 v0 totalCapacity hasher =
     (let totalCapacity = (if totalCapacity < 8 then 8 else totalCapacity)
      in \<lparr>subarrays = ctor_loop k0 v0 totalCapacity [], m_hasher = hasher\<rparr>)"

section \<open>Lookup\<close>

text \<open>
  The inner \<^verbatim>\<open>for (probe = 0; probe < maxProbes; probe++)\<close> loop of \<^verbatim>\<open>findSlot\<close>
  (lines 200 to 209) on one subarray. The result is the index of the slot whose address the
  function returns, or \<open>None\<close> when the loop ends by \<^verbatim>\<open>break\<close> or by exhausting the probes.
\<close>

function findSlot_probe ::
  "('k, 'v) Subarray \<Rightarrow> 'k \<Rightarrow> size_t \<Rightarrow> size_t \<Rightarrow> size_t \<Rightarrow> nat option" where
  "findSlot_probe sub k hashVal maxProbes probe =
     (if probe < maxProbes then
        (let idx = unat ((hashVal + probe) mod capacity sub) in
         if \<not> occupied (slots sub ! idx) then None
         else if occupied (slots sub ! idx) \<and> key (slots sub ! idx) = k then Some idx
         else findSlot_probe sub k hashVal maxProbes (probe + 1))
      else None)"
  by pat_completeness auto
termination
proof (relation "measure (\<lambda>(sub, k, hashVal, maxProbes, probe). unat maxProbes - unat probe)")
  show "wf (measure (\<lambda>(sub :: ('k, 'v) Subarray, k :: 'k, hashVal :: size_t,
          maxProbes :: size_t, probe :: size_t). unat maxProbes - unat probe))"
    by simp
next
  fix sub :: "('k, 'v) Subarray" and k :: 'k and hashVal maxProbes probe :: size_t and idx
  assume lt: "probe < maxProbes"
  hence below: "unat probe < unat maxProbes"
    by (simp add: word_less_nat_alt)
  moreover have "unat maxProbes < 2 ^ LENGTH(64)"
    by (rule unsigned_less)
  ultimately have "unat probe + unat (1 :: size_t) < 2 ^ LENGTH(64)"
    by simp
  hence "unat (probe + 1) = unat probe + unat (1 :: size_t)"
    by (rule unat_add_lem [THEN iffD1])
  with below show "((sub, k, hashVal, maxProbes, probe + 1), (sub, k, hashVal, maxProbes, probe))
      \<in> measure (\<lambda>(sub, k, hashVal, maxProbes, probe). unat maxProbes - unat probe)"
    by simp
qed

declare findSlot_probe.simps [simp del]

text \<open>
  The outer \<^verbatim>\<open>for (auto& sub : subarrays)\<close> loop of \<^verbatim>\<open>findSlot\<close>. The pointer
  \<^verbatim>\<open>&sub.slots[idx]\<close> is the pair of the subarray's position and the slot's index;
  \<open>None\<close> is \<^verbatim>\<open>nullptr\<close>.
\<close>

fun findSlot_subs ::
  "('k \<Rightarrow> size_t) \<Rightarrow> ('k, 'v) Subarray list \<Rightarrow> 'k \<Rightarrow> (nat \<times> nat) option" where
  "findSlot_subs hasher [] k = None"
| "findSlot_subs hasher (sub # rest) k =
     (let subcap = capacity sub;
          hashVal = hasher k;
          maxProbes = min 16 subcap
      in case findSlot_probe sub k hashVal maxProbes 0 of
           Some idx \<Rightarrow> Some (0, idx)
         | None \<Rightarrow> map_option (\<lambda>(i, idx). (Suc i, idx)) (findSlot_subs hasher rest k))"

definition findSlot :: "('k, 'v) ElasticHashMap \<Rightarrow> 'k \<Rightarrow> (nat \<times> nat) option" where
  "findSlot m k = findSlot_subs (m_hasher m) (subarrays m) k"

definition count :: "('k, 'v) ElasticHashMap \<Rightarrow> 'k \<Rightarrow> bool" where
  "count m k = (findSlot m k \<noteq> None)"

section \<open>Update in place\<close>

text \<open>
  The inner loop of \<^verbatim>\<open>tryUpdate\<close> (lines 138 to 150). The flag is \<open>True\<close> when the function
  returns \<^verbatim>\<open>true\<close> from inside the loop; the subarray is the one the loop leaves behind.
\<close>

function tryUpdate_probe ::
  "('k, 'v) Subarray \<Rightarrow> 'k \<Rightarrow> 'v \<Rightarrow> size_t \<Rightarrow> size_t \<Rightarrow> size_t \<Rightarrow> bool \<times> ('k, 'v) Subarray" where
  "tryUpdate_probe sub k val hashVal maxProbes probe =
     (if probe < maxProbes then
        (let idx = unat ((hashVal + probe) mod capacity sub) in
         if occupied (slots sub ! idx) then
           if key (slots sub ! idx) = k then
             (True, sub\<lparr>slots := (slots sub)[idx := (slots sub ! idx)\<lparr>value := val\<rparr>]\<rparr>)
           else tryUpdate_probe sub k val hashVal maxProbes (probe + 1)
         else (False, sub))
      else (False, sub))"
  by pat_completeness auto
termination
proof (relation
    "measure (\<lambda>(sub, k, val, hashVal, maxProbes, probe). unat maxProbes - unat probe)")
  show "wf (measure (\<lambda>(sub :: ('k, 'v) Subarray, k :: 'k, val :: 'v, hashVal :: size_t,
          maxProbes :: size_t, probe :: size_t). unat maxProbes - unat probe))"
    by simp
next
  fix sub :: "('k, 'v) Subarray" and k :: 'k and val :: 'v
    and hashVal maxProbes probe :: size_t and idx
  assume lt: "probe < maxProbes"
  hence below: "unat probe < unat maxProbes"
    by (simp add: word_less_nat_alt)
  moreover have "unat maxProbes < 2 ^ LENGTH(64)"
    by (rule unsigned_less)
  ultimately have "unat probe + unat (1 :: size_t) < 2 ^ LENGTH(64)"
    by simp
  hence "unat (probe + 1) = unat probe + unat (1 :: size_t)"
    by (rule unat_add_lem [THEN iffD1])
  with below show "((sub, k, val, hashVal, maxProbes, probe + 1),
      (sub, k, val, hashVal, maxProbes, probe))
      \<in> measure (\<lambda>(sub, k, val, hashVal, maxProbes, probe). unat maxProbes - unat probe)"
    by simp
qed

declare tryUpdate_probe.simps [simp del]

fun tryUpdate_subs ::
  "('k \<Rightarrow> size_t) \<Rightarrow> ('k, 'v) Subarray list \<Rightarrow> 'k \<Rightarrow> 'v \<Rightarrow> bool \<times> ('k, 'v) Subarray list" where
  "tryUpdate_subs hasher [] k val = (False, [])"
| "tryUpdate_subs hasher (sub # rest) k val =
     (let subcap = capacity sub;
          hashVal = hasher k;
          maxProbes = min 16 subcap
      in case tryUpdate_probe sub k val hashVal maxProbes 0 of
           (True, sub') \<Rightarrow> (True, sub' # rest)
         | (False, sub') \<Rightarrow>
             (case tryUpdate_subs hasher rest k val of
                (found, rest') \<Rightarrow> (found, sub' # rest')))"

definition tryUpdate ::
  "('k, 'v) ElasticHashMap \<Rightarrow> 'k \<Rightarrow> 'v \<Rightarrow> bool \<times> ('k, 'v) ElasticHashMap" where
  "tryUpdate m k val =
     (case tryUpdate_subs (m_hasher m) (subarrays m) k val of
        (found, subs') \<Rightarrow> (found, m\<lparr>subarrays := subs'\<rparr>))"

section \<open>Insertion\<close>

text \<open>
  The inner loop of \<^verbatim>\<open>doInsert\<close> (lines 168 to 183). The flag is \<open>True\<close> when the function
  returns from inside the loop, after placing the key or overwriting a duplicate.
\<close>

function doInsert_probe ::
  "('k, 'v) Subarray \<Rightarrow> 'k \<Rightarrow> 'v \<Rightarrow> size_t \<Rightarrow> size_t \<Rightarrow> size_t \<Rightarrow> bool \<times> ('k, 'v) Subarray" where
  "doInsert_probe sub k val hashVal maxProbes probe =
     (if probe < maxProbes then
        (let idx = unat ((hashVal + probe) mod capacity sub) in
         if \<not> occupied (slots sub ! idx) then
           (True, sub\<lparr>slots := (slots sub)[idx := \<lparr>occupied = True, key = k, value = val\<rparr>],
                       size := size sub + 1\<rparr>)
         else if key (slots sub ! idx) = k then
           (True, sub\<lparr>slots := (slots sub)[idx := (slots sub ! idx)\<lparr>value := val\<rparr>]\<rparr>)
         else doInsert_probe sub k val hashVal maxProbes (probe + 1))
      else (False, sub))"
  by pat_completeness auto
termination
proof (relation
    "measure (\<lambda>(sub, k, val, hashVal, maxProbes, probe). unat maxProbes - unat probe)")
  show "wf (measure (\<lambda>(sub :: ('k, 'v) Subarray, k :: 'k, val :: 'v, hashVal :: size_t,
          maxProbes :: size_t, probe :: size_t). unat maxProbes - unat probe))"
    by simp
next
  fix sub :: "('k, 'v) Subarray" and k :: 'k and val :: 'v
    and hashVal maxProbes probe :: size_t and idx
  assume lt: "probe < maxProbes"
  hence below: "unat probe < unat maxProbes"
    by (simp add: word_less_nat_alt)
  moreover have "unat maxProbes < 2 ^ LENGTH(64)"
    by (rule unsigned_less)
  ultimately have "unat probe + unat (1 :: size_t) < 2 ^ LENGTH(64)"
    by simp
  hence "unat (probe + 1) = unat probe + unat (1 :: size_t)"
    by (rule unat_add_lem [THEN iffD1])
  with below show "((sub, k, val, hashVal, maxProbes, probe + 1),
      (sub, k, val, hashVal, maxProbes, probe))
      \<in> measure (\<lambda>(sub, k, val, hashVal, maxProbes, probe). unat maxProbes - unat probe)"
    by simp
qed

declare doInsert_probe.simps [simp del]

text \<open>
  The outer loop of \<^verbatim>\<open>doInsert\<close> with the admission test
  \<^verbatim>\<open>sub.size * 10 < sub.capacity * 9\<close>, computed in \<^verbatim>\<open>size_t\<close>.
\<close>

fun doInsert_subs ::
  "('k \<Rightarrow> size_t) \<Rightarrow> ('k, 'v) Subarray list \<Rightarrow> 'k \<Rightarrow> 'v \<Rightarrow> bool \<times> ('k, 'v) Subarray list" where
  "doInsert_subs hasher [] k val = (False, [])"
| "doInsert_subs hasher (sub # rest) k val =
     (if size sub * 10 < capacity sub * 9 then
        (let subcap = capacity sub;
             hashVal = hasher k;
             maxProbes = min 16 subcap
         in case doInsert_probe sub k val hashVal maxProbes 0 of
              (True, sub') \<Rightarrow> (True, sub' # rest)
            | (False, sub') \<Rightarrow>
                (case doInsert_subs hasher rest k val of
                   (placed, rest') \<Rightarrow> (placed, sub' # rest')))
      else
        (case doInsert_subs hasher rest k val of
           (placed, rest') \<Rightarrow> (placed, sub # rest')))"

text \<open>
  \<^verbatim>\<open>doInsert\<close> returns normally (\<open>Inr ()\<close>) or throws after the loop (\<open>Inl\<close>); in both cases
  the second component is the map as the call leaves it.
\<close>

definition doInsert ::
  "('k, 'v) ElasticHashMap \<Rightarrow> 'k \<Rightarrow> 'v \<Rightarrow> (error + unit) \<times> ('k, 'v) ElasticHashMap" where
  "doInsert m k val =
     (case doInsert_subs (m_hasher m) (subarrays m) k val of
        (True, subs') \<Rightarrow> (Inr (), m\<lparr>subarrays := subs'\<rparr>)
      | (False, subs') \<Rightarrow>
          (Inl (runtime_error ''ElasticHashMap: table is too full or insertion failed!''),
           m\<lparr>subarrays := subs'\<rparr>))"

definition insertOrUpdate ::
  "('k, 'v) ElasticHashMap \<Rightarrow> 'k \<Rightarrow> 'v \<Rightarrow> (error + unit) \<times> ('k, 'v) ElasticHashMap" where
  "insertOrUpdate m k val =
     (case tryUpdate m k val of
        (True, m') \<Rightarrow> (Inr (), m')
      | (False, m') \<Rightarrow> doInsert m' k val)"

section \<open>Indexed access\<close>

text \<open>
  \<^verbatim>\<open>operator[]\<close> returns a reference to the value of a slot: the slot's position. The
  function-local \<^verbatim>\<open>static V defaultVal{}\<close> is only ever passed by const reference and
  copied into a slot, so it keeps its initial content, the parameter \<open>defaultVal\<close>.
\<close>

definition operator_index ::
  "'v \<Rightarrow> ('k, 'v) ElasticHashMap \<Rightarrow> 'k \<Rightarrow> (error + nat \<times> nat) \<times> ('k, 'v) ElasticHashMap" where
  "operator_index defaultVal m k =
     (case findSlot m k of
        Some slotPtr \<Rightarrow> (Inr slotPtr, m)
      | None \<Rightarrow>
          (case insertOrUpdate m k defaultVal of
             (Inl e, m') \<Rightarrow> (Inl e, m')
           | (Inr u, m') \<Rightarrow>
               (case findSlot m' k of
                  None \<Rightarrow>
                    (Inl (runtime_error ''ElasticHashMap: insertion unexpectedly failed!''), m')
                | Some slotPtr \<Rightarrow> (Inr slotPtr, m'))))"

text \<open>Reading and writing through a pointer to a slot or a reference to its value.\<close>

definition slot_at :: "('k, 'v) ElasticHashMap \<Rightarrow> nat \<times> nat \<Rightarrow> ('k, 'v) Slot" where
  "slot_at m p = slots (subarrays m ! fst p) ! snd p"

definition assign_ref ::
  "('k, 'v) ElasticHashMap \<Rightarrow> nat \<times> nat \<Rightarrow> 'v \<Rightarrow> ('k, 'v) ElasticHashMap" where
  "assign_ref m p val =
     m\<lparr>subarrays := (subarrays m)[fst p :=
         (subarrays m ! fst p)\<lparr>slots := (slots (subarrays m ! fst p))[snd p :=
            (slot_at m p)\<lparr>value := val\<rparr>]\<rparr>]\<rparr>"

section \<open>Sequences of operations\<close>

text \<open>
  The public operations a caller can apply to a map. \<open>Assign k val\<close> is the statement
  \<^verbatim>\<open>map[k] = val\<close>: \<^verbatim>\<open>operator[]\<close> followed by a write through the reference it returns.
  A call that throws leaves the map as the second component of its result describes it, and
  the caller goes on with that map.
\<close>

datatype ('k, 'v) op = Count 'k | Index 'k | Put 'k 'v | Assign 'k 'v

fun step :: "'v \<Rightarrow> ('k, 'v) ElasticHashMap \<Rightarrow> ('k, 'v) op \<Rightarrow> ('k, 'v) ElasticHashMap" where
  "step defaultVal m (Count k) = m"
| "step defaultVal m (Index k) = snd (operator_index defaultVal m k)"
| "step defaultVal m (Put k val) = snd (insertOrUpdate m k val)"
| "step defaultVal m (Assign k val) =
     (case operator_index defaultVal m k of
        (Inr slotPtr, m') \<Rightarrow> assign_ref m' slotPtr val
      | (Inl e, m') \<Rightarrow> m')"

fun run :: "'v \<Rightarrow> ('k, 'v) ElasticHashMap \<Rightarrow> ('k, 'v) op list \<Rightarrow> ('k, 'v) ElasticHashMap" where
  "run defaultVal m [] = m"
| "run defaultVal m (a # ops) = run defaultVal (step defaultVal m a) ops"

section \<open>Notions of the specification\<close>

text \<open>The two errors of the specification, as the source raises them.\<close>

definition CapacityExhausted :: error where
  "CapacityExhausted = runtime_error ''ElasticHashMap: table is too full or insertion failed!''"

definition InvariantViolation :: error where
  "InvariantViolation = runtime_error ''ElasticHashMap: insertion unexpectedly failed!''"

text \<open>
  The canonical probe sequence of the specification for a hash value \<open>h\<close> in a region of
  capacity \<open>c\<close>: the indices \<open>(h + probe) mod c\<close> for \<open>probe\<close> from 0 up to, not including,
  \<open>L = min 16 c\<close>. The sum is a \<^verbatim>\<open>size_t\<close> sum, as \<open>h\<close> is.
\<close>

definition probe_seq :: "size_t \<Rightarrow> size_t \<Rightarrow> nat list" where
  "probe_seq h c = map (\<lambda>probe. unat ((h + of_nat probe) mod c)) [0 ..< unat (min 16 c)]"

text \<open>
  Lookup, update and insertion as walks along a given sequence of slot indices, following
  sections 4.2 to 4.4 of the specification: stop at the first empty slot or at the first slot
  that holds the key.
\<close>

fun find_along :: "('k, 'v) Subarray \<Rightarrow> 'k \<Rightarrow> nat list \<Rightarrow> nat option" where
  "find_along sub k [] = None"
| "find_along sub k (idx # rest) =
     (if \<not> occupied (slots sub ! idx) then None
      else if key (slots sub ! idx) = k then Some idx
      else find_along sub k rest)"

fun update_along ::
  "('k, 'v) Subarray \<Rightarrow> 'k \<Rightarrow> 'v \<Rightarrow> nat list \<Rightarrow> bool \<times> ('k, 'v) Subarray" where
  "update_along sub k val [] = (False, sub)"
| "update_along sub k val (idx # rest) =
     (if \<not> occupied (slots sub ! idx) then (False, sub)
      else if key (slots sub ! idx) = k then
        (True, sub\<lparr>slots := (slots sub)[idx := (slots sub ! idx)\<lparr>value := val\<rparr>]\<rparr>)
      else update_along sub k val rest)"

fun insert_along ::
  "('k, 'v) Subarray \<Rightarrow> 'k \<Rightarrow> 'v \<Rightarrow> nat list \<Rightarrow> bool \<times> ('k, 'v) Subarray" where
  "insert_along sub k val [] = (False, sub)"
| "insert_along sub k val (idx # rest) =
     (if \<not> occupied (slots sub ! idx) then
        (True, sub\<lparr>slots := (slots sub)[idx := \<lparr>occupied = True, key = k, value = val\<rparr>],
                    size := size sub + 1\<rparr>)
      else if key (slots sub ! idx) = k then
        (True, sub\<lparr>slots := (slots sub)[idx := (slots sub ! idx)\<lparr>value := val\<rparr>]\<rparr>)
      else insert_along sub k val rest)"




text \<open>The value most recently written for \<open>k\<close> by a sequence of operations, \<open>v\<close> before it.\<close>

fun last_written :: "'k \<Rightarrow> 'v \<Rightarrow> ('k, 'v) op list \<Rightarrow> 'v" where
  "last_written k v [] = v"
| "last_written k v (Put k' v' # ops) = last_written k (if k' = k then v' else v) ops"
| "last_written k v (Assign k' v' # ops) = last_written k (if k' = k then v' else v) ops"
| "last_written k v (Count k' # ops) = last_written k v ops"
| "last_written k v (Index k' # ops) = last_written k v ops"

section \<open>Invariants\<close>

text \<open>Every subarray's vector has as many slots as the subarray's capacity says.\<close>

definition wf_sub :: "('k, 'v) Subarray \<Rightarrow> bool" where
  "wf_sub sub = (length (slots sub) = unat (capacity sub))"

definition wf_map :: "('k, 'v) ElasticHashMap \<Rightarrow> bool" where
  "wf_map m = list_all wf_sub (subarrays m)"

text \<open>The number of occupied slots of a subarray, and the agreement of \<open>size\<close> with it.\<close>

definition occupancy :: "('k, 'v) Subarray \<Rightarrow> nat" where
  "occupancy sub = length (filter occupied (slots sub))"

definition sizes_ok :: "('k, 'v) ElasticHashMap \<Rightarrow> bool" where
  "sizes_ok m = list_all (\<lambda>sub. unat (size sub) = occupancy sub) (subarrays m)"

text \<open>A position \<open>(i, j)\<close> names slot \<open>j\<close> of subarray \<open>i\<close>.\<close>

definition valid_pos :: "('k, 'v) ElasticHashMap \<Rightarrow> nat \<times> nat \<Rightarrow> bool" where
  "valid_pos m p =
     (fst p < length (subarrays m) \<and> snd p < length (slots (subarrays m ! fst p)))"

text \<open>Every stored key is found by lookup, in the very slot that stores it.\<close>

definition keys_findable :: "('k, 'v) ElasticHashMap \<Rightarrow> bool" where
  "keys_findable m =
     (\<forall>p. valid_pos m p \<and> occupied (slot_at m p) \<longrightarrow> findSlot m (key (slot_at m p)) = Some p)"

text \<open>Abbreviations for the two ways a subarray changes, and for the search in one subarray.\<close>

definition place :: "('k, 'v) Subarray \<Rightarrow> nat \<Rightarrow> 'k \<Rightarrow> 'v \<Rightarrow> ('k, 'v) Subarray" where
  "place sub idx k val =
     sub\<lparr>slots := (slots sub)[idx := \<lparr>occupied = True, key = k, value = val\<rparr>],
         size := size sub + 1\<rparr>"

definition set_value :: "('k, 'v) Subarray \<Rightarrow> nat \<Rightarrow> 'v \<Rightarrow> ('k, 'v) Subarray" where
  "set_value sub idx val = sub\<lparr>slots := (slots sub)[idx := (slots sub ! idx)\<lparr>value := val\<rparr>]\<rparr>"

definition find_in :: "('k \<Rightarrow> size_t) \<Rightarrow> ('k, 'v) Subarray \<Rightarrow> 'k \<Rightarrow> nat option" where
  "find_in hasher sub k = findSlot_probe sub k (hasher k) (min 16 (capacity sub)) 0"

definition eligible :: "('k, 'v) Subarray \<Rightarrow> bool" where
  "eligible sub = (size sub * 10 < capacity sub * 9)"

text \<open>Placing a key in slot \<open>snd p\<close> of subarray \<open>fst p\<close>, as \<^verbatim>\<open>doInsert\<close> does.\<close>

definition place_at ::
  "('k, 'v) ElasticHashMap \<Rightarrow> nat \<times> nat \<Rightarrow> 'k \<Rightarrow> 'v \<Rightarrow> ('k, 'v) ElasticHashMap" where
  "place_at m p k val =
     m\<lparr>subarrays := (subarrays m)[fst p := place (subarrays m ! fst p) (snd p) k val]\<rparr>"

text \<open>The invariant of the maps a caller can build, and what an operation may change.\<close>

definition map_inv :: "('k, 'v) ElasticHashMap \<Rightarrow> bool" where
  "map_inv m = (wf_map m \<and> sizes_ok m \<and> keys_findable m)"

definition grows :: "('k, 'v) ElasticHashMap \<Rightarrow> ('k, 'v) ElasticHashMap \<Rightarrow> bool" where
  "grows m m' =
     (length (subarrays m') = length (subarrays m)
      \<and> (\<forall>i < length (subarrays m).
            capacity (subarrays m' ! i) = capacity (subarrays m ! i)
            \<and> size (subarrays m ! i) \<le> size (subarrays m' ! i)))"

section \<open>The constructor's layout\<close>

lemma subCap_bounds:
  fixes remaining :: size_t
  assumes "0 < remaining"
  defines "half \<equiv> max 1 (remaining div 2)"
  defines "final \<equiv> (if half < 4 \<and> remaining < 4 then remaining else half)"
  shows "final \<le> remaining" and "final \<noteq> 0"
proof -
  have one: "1 \<le> remaining"
    using assms(1) by (simp add: word_le_nat_alt word_less_nat_alt)
  have "remaining div 2 \<le> remaining"
    by (simp add: word_le_nat_alt unat_div)
  with one have "half \<le> remaining"
    unfolding half_def by (simp add: max_def)
  thus "final \<le> remaining"
    unfolding final_def by simp
  have "1 \<le> half"
    unfolding half_def by simp
  hence "1 \<le> final"
    unfolding final_def using one by simp
  thus "final \<noteq> 0"
    by (auto simp: word_le_nat_alt)
qed

lemma ctor_loop_step:
  assumes "0 < remaining"
  shows "\<exists>c. c \<le> remaining \<and> c \<noteq> 0
           \<and> ctor_loop k0 v0 remaining subs
               = ctor_loop k0 v0 (remaining - c) (subs @ [Subarray_ctor k0 v0 c])"
proof -
  define half where "half = max 1 (remaining div 2)"
  define final where "final = (if half < 4 \<and> remaining < 4 then remaining else half)"
  have "final \<le> remaining" "final \<noteq> 0"
    unfolding final_def half_def by (rule subCap_bounds [OF assms])+
  moreover have "ctor_loop k0 v0 remaining subs
      = ctor_loop k0 v0 (remaining - final) (subs @ [Subarray_ctor k0 v0 final])"
    by (subst ctor_loop.simps) (simp only: assms if_True Let_def half_def final_def)
  ultimately show ?thesis
    by blast
qed

lemma ctor_loop_stop: "ctor_loop k0 v0 0 subs = subs"
  by (subst ctor_loop.simps) simp

lemma ctor_loop_sum:
  "sum_list (map (\<lambda>s. unat (capacity s)) (ctor_loop k0 v0 remaining subs))
     = sum_list (map (\<lambda>s. unat (capacity s)) subs) + unat remaining"
proof (induction "unat remaining" arbitrary: remaining subs rule: less_induct)
  case less
  show ?case
  proof (cases "0 < remaining")
    case False
    hence "remaining = 0"
      by (simp add: word_greater_zero_iff)
    thus ?thesis
      by (simp add: ctor_loop_stop)
  next
    case True
    from ctor_loop_step [OF True, of k0 v0 subs] obtain c where
      c: "c \<le> remaining" "c \<noteq> 0" and
      step: "ctor_loop k0 v0 remaining subs
               = ctor_loop k0 v0 (remaining - c) (subs @ [Subarray_ctor k0 v0 c])"
      by blast
    have sub: "unat (remaining - c) = unat remaining - unat c"
      using c(1) by (simp add: unat_sub)
    have le: "unat c \<le> unat remaining" and pos: "0 < unat c"
      using c by (simp_all add: word_le_nat_alt unat_gt_0)
    hence "unat (remaining - c) < unat remaining"
      using sub by simp
    from less [OF this, of "subs @ [Subarray_ctor k0 v0 c]"] show ?thesis
      unfolding step sub using le by (simp add: Subarray_ctor_def)
  qed
qed

text \<open>
  Claim C1 (capacity conservation). For every requested total capacity \<open>n\<close>, the capacities of
  the subarrays the constructor creates add up, as natural numbers, to \<open>max n 8\<close>.
\<close>

theorem capacity_conservation:
  "sum_list (map (\<lambda>s. unat (capacity s)) (subarrays (ElasticHashMap_ctor k0 v0 n hasher)))
     = unat (max n 8)"
proof (cases "n < 8")
  case True
  hence "max n 8 = 8"
    by (intro max_absorb2 less_imp_le)
  with True show ?thesis
    by (simp add: ElasticHashMap_ctor_def ctor_loop_sum)
next
  case False
  hence "max n 8 = n"
    by (intro max_absorb1) (simp add: not_less)
  with False show ?thesis
    by (simp add: ElasticHashMap_ctor_def ctor_loop_sum)
qed

text \<open>
  Claim C2 (subarrays ordered from largest to smallest). The source announces "subarrays with
  descending sizes", but a requested capacity of 9 gives the capacities 4, 2, 3: the final
  subarray takes the three slots that remain after one of two slots, so the sequence is not
  non-increasing.
\<close>

theorem ctor_capacities_not_descending:
  "map capacity (subarrays (ElasticHashMap_ctor (0 :: nat) (0 :: nat) 9 of_nat)) = [4, 2, 3]
   \<and> \<not> sorted_wrt (\<lambda>a b. b \<le> a)
         (map capacity (subarrays (ElasticHashMap_ctor (0 :: nat) (0 :: nat) 9 of_nat)))"
  by (simp add: ElasticHashMap_ctor_def ctor_loop.simps Subarray_ctor_def)

section \<open>The probe loops as walks along the probe sequence\<close>

lemma probe_succ:
  fixes probe maxProbes :: size_t
  assumes "probe < maxProbes"
  shows "unat (probe + 1) = Suc (unat probe)"
proof -
  have "unat probe < unat maxProbes"
    using assms by (simp add: word_less_nat_alt)
  moreover have "unat maxProbes < 2 ^ LENGTH(64)"
    by (rule unsigned_less)
  ultimately have "unat probe + unat (1 :: size_t) < 2 ^ LENGTH(64)"
    by simp
  hence "unat (probe + 1) = unat probe + unat (1 :: size_t)"
    by (rule unat_add_lem [THEN iffD1])
  thus ?thesis
    by simp
qed

lemma probe_range:
  fixes probe maxProbes :: size_t
  assumes "probe < maxProbes"
  shows "[unat probe ..< unat maxProbes] = unat probe # [unat (probe + 1) ..< unat maxProbes]"
proof -
  have "unat probe < unat maxProbes"
    using assms by (simp add: word_less_nat_alt)
  thus ?thesis
    by (simp add: probe_succ [OF assms] upt_conv_Cons)
qed

lemma probe_range_empty:
  fixes probe maxProbes :: size_t
  assumes "\<not> probe < maxProbes"
  shows "[unat probe ..< unat maxProbes] = []"
  using assms by (simp add: word_less_nat_alt)

lemma findSlot_probe_along:
  "findSlot_probe sub k h L p =
     find_along sub k (map (\<lambda>q. unat ((h + of_nat q) mod capacity sub)) [unat p ..< unat L])"
proof (induction sub k h L p rule: findSlot_probe.induct)
  case (1 sub k h L p)
  show ?case
  proof (cases "p < L")
    case False
    thus ?thesis
      by (subst findSlot_probe.simps) (simp add: probe_range_empty)
  next
    case True
    define idx where "idx = unat ((h + p) mod capacity sub)"
    show ?thesis
    proof (cases "occupied (slots sub ! idx) \<and> key (slots sub ! idx) \<noteq> k")
      case False
      thus ?thesis
        using True
        by (subst findSlot_probe.simps) (auto simp: Let_def idx_def probe_range)
    next
      case cont: True
      have "findSlot_probe sub k h L p = findSlot_probe sub k h L (p + 1)"
        using True cont by (subst findSlot_probe.simps) (simp add: Let_def idx_def)
      thus ?thesis
        using "1.IH" [OF True idx_def] cont by (simp add: probe_range [OF True] idx_def)
    qed
  qed
qed

lemma tryUpdate_probe_along:
  "tryUpdate_probe sub k val h L p =
     update_along sub k val (map (\<lambda>q. unat ((h + of_nat q) mod capacity sub)) [unat p ..< unat L])"
proof (induction sub k val h L p rule: tryUpdate_probe.induct)
  case (1 sub k val h L p)
  show ?case
  proof (cases "p < L")
    case False
    thus ?thesis
      by (subst tryUpdate_probe.simps) (simp add: probe_range_empty)
  next
    case True
    define idx where "idx = unat ((h + p) mod capacity sub)"
    show ?thesis
    proof (cases "occupied (slots sub ! idx) \<and> key (slots sub ! idx) \<noteq> k")
      case False
      thus ?thesis
        using True
        by (subst tryUpdate_probe.simps) (auto simp: Let_def idx_def probe_range)
    next
      case cont: True
      have "tryUpdate_probe sub k val h L p = tryUpdate_probe sub k val h L (p + 1)"
        using True cont by (subst tryUpdate_probe.simps) (simp add: Let_def idx_def)
      thus ?thesis
        using "1.IH" [OF True idx_def] cont by (simp add: probe_range [OF True] idx_def)
    qed
  qed
qed

lemma doInsert_probe_along:
  "doInsert_probe sub k val h L p =
     insert_along sub k val (map (\<lambda>q. unat ((h + of_nat q) mod capacity sub)) [unat p ..< unat L])"
proof (induction sub k val h L p rule: doInsert_probe.induct)
  case (1 sub k val h L p)
  show ?case
  proof (cases "p < L")
    case False
    thus ?thesis
      by (subst doInsert_probe.simps) (simp add: probe_range_empty)
  next
    case True
    define idx where "idx = unat ((h + p) mod capacity sub)"
    show ?thesis
    proof (cases "occupied (slots sub ! idx) \<and> key (slots sub ! idx) \<noteq> k")
      case False
      thus ?thesis
        using True
        by (subst doInsert_probe.simps) (auto simp: Let_def idx_def probe_range)
    next
      case cont: True
      have "doInsert_probe sub k val h L p = doInsert_probe sub k val h L (p + 1)"
        using True cont by (subst doInsert_probe.simps) (simp add: Let_def idx_def)
      thus ?thesis
        using "1.IH" [OF True idx_def] cont by (simp add: probe_range [OF True] idx_def)
    qed
  qed
qed


lemma probe_seq_in_range: "idx \<in> set (probe_seq h c) \<Longrightarrow> idx < unat c"
proof -
  assume "idx \<in> set (probe_seq h c)"
  then obtain q where q: "q < unat (min 16 c)" and idx: "idx = unat ((h + of_nat q) mod c)"
    by (auto simp: probe_seq_def)
  have "unat (min 16 c) \<le> unat c"
    by (simp add: word_le_nat_alt [symmetric])
  with q have "0 < unat c"
    by simp
  thus ?thesis
    unfolding idx by (simp add: unat_mod)
qed

text \<open>
  Unless \<open>h + 15\<close> overflows \<^verbatim>\<open>size_t\<close>, the sequence is the one of the natural numbers
  \<open>(h + probe) mod c\<close>.
\<close>

lemma probe_seq_nat:
  assumes "unat h + 15 < 2 ^ 64"
  shows "probe_seq h c = map (\<lambda>probe. (unat h + probe) mod unat c) [0 ..< min 16 (unat c)]"
proof -
  have len: "unat (min 16 c) = min 16 (unat c)"
    by (simp add: min_def word_le_nat_alt)
  have "unat ((h + of_nat q) mod c) = (unat h + q) mod unat c" if "q < 16" for q
  proof -
    have q: "unat (of_nat q :: size_t) = q"
      using that by (simp add: unat_of_nat)
    hence "unat h + unat (of_nat q :: size_t) < 2 ^ LENGTH(64)"
      using assms that by simp
    hence "unat (h + of_nat q) = unat h + unat (of_nat q :: size_t)"
      by (rule unat_add_lem [THEN iffD1])
    thus ?thesis
      by (simp add: unat_mod q)
  qed
  thus ?thesis
    by (simp add: probe_seq_def len)
qed

section \<open>Walks in one subarray\<close>

lemma find_in_along:
  "find_in hasher sub k = find_along sub k (probe_seq (hasher k) (capacity sub))"
  by (simp add: find_in_def findSlot_probe_along probe_seq_def)

lemma find_along_sound:
  "find_along sub k idxs = Some j \<Longrightarrow>
     j \<in> set idxs \<and> occupied (slots sub ! j) \<and> key (slots sub ! j) = k"
  by (induction idxs) (auto split: if_splits)

lemma update_along_find:
  "update_along sub k val idxs =
     (case find_along sub k idxs of
        None \<Rightarrow> (False, sub)
      | Some j \<Rightarrow> (True, set_value sub j val))"
  by (induction idxs) (auto simp: set_value_def)

lemma insert_along_found:
  "find_along sub k idxs = Some j \<Longrightarrow> insert_along sub k val idxs = (True, set_value sub j val)"
  by (induction idxs) (auto simp: set_value_def split: if_splits)

lemma insert_along_unplaced: "insert_along sub k val idxs = (False, sub') \<Longrightarrow> sub' = sub"
  by (induction idxs) (auto split: if_splits)

lemma slots_place [simp]:
  "slots (place sub j k val) = (slots sub)[j := \<lparr>occupied = True, key = k, value = val\<rparr>]"
  "capacity (place sub j k val) = capacity sub"
  "size (place sub j k val) = size sub + 1"
  by (simp_all add: place_def)

lemma slots_set_value [simp]:
  "slots (set_value sub j val) = (slots sub)[j := (slots sub ! j)\<lparr>value := val\<rparr>]"
  "capacity (set_value sub j val) = capacity sub"
  "size (set_value sub j val) = size sub"
  by (simp_all add: set_value_def)

lemma set_value_nth:
  "occupied ((slots sub)[j := (slots sub ! j)\<lparr>value := val\<rparr>] ! i) = occupied (slots sub ! i)"
  "key ((slots sub)[j := (slots sub ! j)\<lparr>value := val\<rparr>] ! i) = key (slots sub ! i)"
proof -
  have "(slots sub)[j := (slots sub ! j)\<lparr>value := val\<rparr>] ! i
          = (if i = j \<and> j < length (slots sub) then (slots sub ! i)\<lparr>value := val\<rparr> else slots sub ! i)"
  proof (cases "j < length (slots sub)")
    case True
    thus ?thesis
      by (simp add: nth_list_update)
  next
    case False
    hence "(slots sub)[j := (slots sub ! j)\<lparr>value := val\<rparr>] = slots sub"
      by (simp add: list_update_beyond)
    thus ?thesis
      using False by simp
  qed
  thus "occupied ((slots sub)[j := (slots sub ! j)\<lparr>value := val\<rparr>] ! i) = occupied (slots sub ! i)"
    and "key ((slots sub)[j := (slots sub ! j)\<lparr>value := val\<rparr>] ! i) = key (slots sub ! i)"
    by simp_all
qed

lemma find_along_set_value:
  "find_along (set_value sub j val) k idxs = find_along sub k idxs"
  by (induction idxs) (simp_all add: set_value_nth)

lemma find_along_place:
  assumes "\<not> occupied (slots sub ! j0)" and "find_along sub k' idxs = Some j"
  shows "find_along (place sub j0 k val) k' idxs = Some j"
  using assms(2)
proof (induction idxs)
  case Nil
  thus ?case by simp
next
  case (Cons idx rest)
  from Cons.prems have occ: "occupied (slots sub ! idx)"
    by (auto split: if_splits)
  with assms(1) have "idx \<noteq> j0"
    by auto
  hence same: "(slots sub)[j0 := \<lparr>occupied = True, key = k, value = val\<rparr>] ! idx = slots sub ! idx"
    by simp
  show ?case
    using Cons occ by (auto simp: same split: if_splits)
qed

lemma insert_along_absent:
  assumes "find_along sub k idxs = None"
  shows "insert_along sub k val idxs = (False, sub)
       \<or> (\<exists>j \<in> set idxs. \<not> occupied (slots sub ! j)
             \<and> insert_along sub k val idxs = (True, place sub j k val)
             \<and> (j < length (slots sub) \<longrightarrow> find_along (place sub j k val) k idxs = Some j))"
  using assms
proof (induction idxs)
  case Nil
  thus ?case by simp
next
  case (Cons idx rest)
  show ?case
  proof (cases "occupied (slots sub ! idx)")
    case False
    have "insert_along sub k val (idx # rest) = (True, place sub idx k val)"
      using False by (simp add: place_def)
    moreover have "j < length (slots sub) \<Longrightarrow> find_along (place sub j k val) k (j # rest) = Some j" for j
      by simp
    ultimately show ?thesis
      using False by (intro disjI2 bexI [of _ idx] conjI impI) simp_all
  next
    case True
    with Cons.prems have neq: "key (slots sub ! idx) \<noteq> k" and rest: "find_along sub k rest = None"
      by (auto split: if_splits)
    from Cons.IH [OF rest] show ?thesis
    proof
      assume "insert_along sub k val rest = (False, sub)"
      thus ?thesis
        using True neq by simp
    next
      assume "\<exists>j \<in> set rest. \<not> occupied (slots sub ! j)
             \<and> insert_along sub k val rest = (True, place sub j k val)
             \<and> (j < length (slots sub) \<longrightarrow> find_along (place sub j k val) k rest = Some j)"
      then obtain j where j: "j \<in> set rest" "\<not> occupied (slots sub ! j)"
          "insert_along sub k val rest = (True, place sub j k val)"
          "j < length (slots sub) \<longrightarrow> find_along (place sub j k val) k rest = Some j"
        by blast
      from j(2) True have "idx \<noteq> j"
        by auto
      hence same: "(slots sub)[j := \<lparr>occupied = True, key = k, value = val\<rparr>] ! idx = slots sub ! idx"
        by simp
      have "insert_along sub k val (idx # rest) = (True, place sub j k val)"
        using True neq j(3) by simp
      moreover have "j < length (slots sub) \<longrightarrow> find_along (place sub j k val) k (idx # rest) = Some j"
        using j(4) True neq by (simp add: same)
      ultimately show ?thesis
        using j(1,2) by (intro disjI2 bexI [of _ j] conjI) simp_all
    qed
  qed
qed

section \<open>The loops over the subarrays\<close>

lemma findSlot_subs_Cons:
  "findSlot_subs hasher (sub # rest) k =
     (case find_in hasher sub k of
        Some idx \<Rightarrow> Some (0, idx)
      | None \<Rightarrow> map_option (\<lambda>(i, idx). (Suc i, idx)) (findSlot_subs hasher rest k))"
  by (simp add: find_in_def Let_def)

lemma findSlot_subs_None:
  "findSlot_subs hasher subs k = None \<longleftrightarrow> (\<forall>i < length subs. find_in hasher (subs ! i) k = None)"
proof (induction subs)
  case Nil
  show ?case by simp
next
  case (Cons sub rest)
  have "(\<forall>i < length (sub # rest). find_in hasher ((sub # rest) ! i) k = None)
      \<longleftrightarrow> find_in hasher sub k = None \<and> (\<forall>i < length rest. find_in hasher (rest ! i) k = None)"
    by (auto simp: nth_Cons split: nat.splits)
  thus ?case
    using Cons.IH by (simp only: findSlot_subs_Cons) (auto split: option.splits)
qed

lemma findSlot_subs_Some:
  "findSlot_subs hasher subs k = Some (i, j) \<longleftrightarrow>
     i < length subs \<and> find_in hasher (subs ! i) k = Some j
       \<and> (\<forall>i' < i. find_in hasher (subs ! i') k = None)"
proof (induction subs arbitrary: i)
  case Nil
  show ?case by simp
next
  case (Cons sub rest)
  show ?case
  proof (cases i)
    case 0
    thus ?thesis
      by (simp only: findSlot_subs_Cons) (auto split: option.splits)
  next
    case (Suc i0)
    have "(\<forall>i' < Suc i0. find_in hasher ((sub # rest) ! i') k = None)
        \<longleftrightarrow> find_in hasher sub k = None \<and> (\<forall>i' < i0. find_in hasher (rest ! i') k = None)"
      by (auto simp: nth_Cons split: nat.splits)
    thus ?thesis
      using Cons.IH [of i0] Suc by (simp only: findSlot_subs_Cons) (auto split: option.splits)
  qed
qed

lemma tryUpdate_subs_find:
  "tryUpdate_subs hasher subs k val =
     (case findSlot_subs hasher subs k of
        None \<Rightarrow> (False, subs)
      | Some (i, j) \<Rightarrow> (True, subs[i := set_value (subs ! i) j val]))"
proof (induction subs)
  case Nil
  show ?case by simp
next
  case (Cons sub rest)
  have upd: "tryUpdate_probe sub k val (hasher k) (min 16 (capacity sub)) 0
      = (case find_in hasher sub k of None \<Rightarrow> (False, sub) | Some j \<Rightarrow> (True, set_value sub j val))"
    by (simp add: tryUpdate_probe_along update_along_find find_in_def findSlot_probe_along)
  show ?case
    using Cons.IH
    by (simp only: findSlot_subs_Cons tryUpdate_subs.simps Let_def upd)
       (auto split: option.splits)
qed

lemma doInsert_subs_unplaced:
  "doInsert_subs hasher subs k val = (False, subs') \<Longrightarrow> subs' = subs"
proof (induction subs arbitrary: subs')
  case Nil
  thus ?case by simp
next
  case (Cons sub rest)
  obtain placed sub' where probe:
      "insert_along sub k val (probe_seq (hasher k) (capacity sub)) = (placed, sub')"
    by (cases "insert_along sub k val (probe_seq (hasher k) (capacity sub))")
  obtain placed' rest' where rest: "doInsert_subs hasher rest k val = (placed', rest')"
    by (cases "doInsert_subs hasher rest k val")
  from Cons.prems have "\<not> placed'" and subs': "subs' = (if eligible sub then sub' else sub) # rest'"
    and "eligible sub \<longrightarrow> \<not> placed"
    using probe rest
    by (auto simp: doInsert_probe_along probe_seq_def eligible_def Let_def split: if_splits bool.splits)
  hence "rest' = rest" and "eligible sub \<longrightarrow> sub' = sub"
    using Cons.IH rest probe insert_along_unplaced by auto
  thus ?case
    using subs' by simp
qed

lemma doInsert_subs_placed:
  "doInsert_subs hasher subs k val = (True, subs') \<Longrightarrow>
     \<exists>i < length subs. eligible (subs ! i)
        \<and> (\<exists>sub'. insert_along (subs ! i) k val (probe_seq (hasher k) (capacity (subs ! i)))
                     = (True, sub')
                   \<and> subs' = subs[i := sub'])"
proof (induction subs arbitrary: subs')
  case Nil
  thus ?case by simp
next
  case (Cons sub rest)
  obtain placed sub' where probe:
      "insert_along sub k val (probe_seq (hasher k) (capacity sub)) = (placed, sub')"
    by (cases "insert_along sub k val (probe_seq (hasher k) (capacity sub))")
  obtain placed' rest' where rest: "doInsert_subs hasher rest k val = (placed', rest')"
    by (cases "doInsert_subs hasher rest k val")
  show ?case
  proof (cases "eligible sub \<and> placed")
    case True
    hence "subs' = sub' # rest"
      using Cons.prems probe
      by (simp add: doInsert_probe_along probe_seq_def eligible_def Let_def)
    hence "subs' = (sub # rest)[0 := sub']"
      by simp
    thus ?thesis
      using True probe by (intro exI [of _ 0]) auto
  next
    case False
    have sub_same: "eligible sub \<Longrightarrow> sub' = sub"
      using False probe insert_along_unplaced by auto
    from False Cons.prems have "placed'" and subs': "subs' = sub # rest'"
      using probe rest sub_same
      by (auto simp: doInsert_probe_along probe_seq_def eligible_def Let_def split: if_splits bool.splits)
    hence "doInsert_subs hasher rest k val = (True, rest')"
      using rest by simp
    from Cons.IH [OF this] obtain i sub'' where i: "i < length rest" "eligible (rest ! i)"
        "insert_along (rest ! i) k val (probe_seq (hasher k) (capacity (rest ! i))) = (True, sub'')"
        "rest' = rest[i := sub'']"
      by blast
    thus ?thesis
      using subs' by (intro exI [of _ "Suc i"]) auto
  qed
qed






section \<open>Operations on the map\<close>

lemma assign_ref_set_value:
  "assign_ref m (i, j) val = m\<lparr>subarrays := (subarrays m)[i := set_value (subarrays m ! i) j val]\<rparr>"
  by (simp add: assign_ref_def slot_at_def set_value_def)

lemma tryUpdate_find:
  "tryUpdate m k val =
     (case findSlot m k of None \<Rightarrow> (False, m) | Some p \<Rightarrow> (True, assign_ref m p val))"
  by (cases "findSlot_subs (m_hasher m) (subarrays m) k")
     (auto simp: tryUpdate_def findSlot_def tryUpdate_subs_find assign_ref_set_value)

lemma doInsert_cases:
  "doInsert m k val = (Inl CapacityExhausted, m)
   \<or> (\<exists>i < length (subarrays m). eligible (subarrays m ! i)
        \<and> (\<exists>sub'. insert_along (subarrays m ! i) k val
                       (probe_seq (m_hasher m k) (capacity (subarrays m ! i))) = (True, sub')
                   \<and> doInsert m k val = (Inr (), m\<lparr>subarrays := (subarrays m)[i := sub']\<rparr>)))"
proof -
  obtain placed subs' where r: "doInsert_subs (m_hasher m) (subarrays m) k val = (placed, subs')"
    by (cases "doInsert_subs (m_hasher m) (subarrays m) k val")
  show ?thesis
  proof (cases placed)
    case False
    with r have "subs' = subarrays m"
      by (auto dest: doInsert_subs_unplaced)
    thus ?thesis
      using r False by (simp add: doInsert_def CapacityExhausted_def)
  next
    case True
    with r have "doInsert_subs (m_hasher m) (subarrays m) k val = (True, subs')"
      by simp
    from doInsert_subs_placed [OF this] obtain i sub' where "i < length (subarrays m)" "eligible (subarrays m ! i)"
        "insert_along (subarrays m ! i) k val
           (probe_seq (m_hasher m k) (capacity (subarrays m ! i))) = (True, sub')"
        "subs' = (subarrays m)[i := sub']"
      by blast
    thus ?thesis
      using r True by (intro disjI2 exI [of _ i]) (simp add: doInsert_def)
  qed
qed

lemma doInsert_throw: "doInsert m k val = (Inl e, m') \<Longrightarrow> m' = m \<and> e = CapacityExhausted"
  using doInsert_cases [of m k val] by auto

lemma insertOrUpdate_cases:
  "insertOrUpdate m k val =
     (case findSlot m k of
        Some p \<Rightarrow> (Inr (), assign_ref m p val)
      | None \<Rightarrow> doInsert m k val)"
  by (simp add: insertOrUpdate_def tryUpdate_find split: option.splits)

lemma insertOrUpdate_throw:
  "insertOrUpdate m k val = (Inl e, m') \<Longrightarrow> m' = m \<and> e = CapacityExhausted \<and> findSlot m k = None"
  by (auto simp: insertOrUpdate_cases split: option.splits dest: doInsert_throw)

lemma operator_index_throw:
  assumes "operator_index d m k = (Inl e, m')"
  shows "findSlot m k = None"
    and "insertOrUpdate m k d = (Inl e, m') \<and> e = CapacityExhausted \<and> m' = m
         \<or> insertOrUpdate m k d = (Inr (), m') \<and> e = InvariantViolation \<and> findSlot m' k = None"
proof -
  show none: "findSlot m k = None"
    using assms by (auto simp: operator_index_def split: option.splits)
  obtain r m1 where ins: "insertOrUpdate m k d = (r, m1)"
    by (cases "insertOrUpdate m k d")
  show "insertOrUpdate m k d = (Inl e, m') \<and> e = CapacityExhausted \<and> m' = m
         \<or> insertOrUpdate m k d = (Inr (), m') \<and> e = InvariantViolation \<and> findSlot m' k = None"
  proof (cases r)
    case (Inl e1)
    hence "e = e1" "m' = m1"
      using assms none ins by (simp_all add: operator_index_def)
    thus ?thesis
      using ins Inl insertOrUpdate_throw [of m k d e1 m1] by simp
  next
    case (Inr u)
    thus ?thesis
      using assms none ins
      by (auto simp: operator_index_def InvariantViolation_def split: option.splits)
  qed
qed

text \<open>
  Claim C7 (a failed insertion changes nothing). When \<^verbatim>\<open>doInsert\<close> or \<^verbatim>\<open>insertOrUpdate\<close>
  throws, or \<^verbatim>\<open>operator[]\<close> throws the capacity error of its insertion, the map the call
  leaves behind is the map it was given: no slot and no size has changed.
\<close>

theorem failed_insertion_leaves_map_unchanged:
  assumes "doInsert m k val = (Inl e, m')
         \<or> insertOrUpdate m k val = (Inl e, m')
         \<or> (operator_index d m k = (Inl e, m') \<and> e = CapacityExhausted)"
  shows "m' = m"
  using assms doInsert_throw [of m k val e m'] insertOrUpdate_throw [of m k val e m']
    operator_index_throw(2) [of d m k e m']
  by (auto simp: CapacityExhausted_def InvariantViolation_def)

theorem failed_insertion_leaves_map_unchanged_witness:
  "fst (insertOrUpdate
          (run 0 (ElasticHashMap_ctor (0 :: nat) (0 :: nat) 8 of_nat)
             [Put 0 0, Put 1 1, Put 2 2, Put 3 3, Put 4 4, Put 5 5, Put 6 6, Put 7 7])
          8 8) = Inl CapacityExhausted
   \<and> snd (insertOrUpdate
          (run 0 (ElasticHashMap_ctor (0 :: nat) (0 :: nat) 8 of_nat)
             [Put 0 0, Put 1 1, Put 2 2, Put 3 3, Put 4 4, Put 5 5, Put 6 6, Put 7 7])
          8 8)
     = run 0 (ElasticHashMap_ctor (0 :: nat) (0 :: nat) 8 of_nat)
         [Put 0 0, Put 1 1, Put 2 2, Put 3 3, Put 4 4, Put 5 5, Put 6 6, Put 7 7]"
  (is "fst (insertOrUpdate ?m 8 8) = _ \<and> _")
proof -
  have thrown: "fst (insertOrUpdate ?m 8 8) = Inl CapacityExhausted"
    by code_simp
  hence "insertOrUpdate ?m 8 8 = (Inl CapacityExhausted, snd (insertOrUpdate ?m 8 8))"
    by (simp add: prod_eq_iff)
  hence "snd (insertOrUpdate ?m 8 8) = ?m"
    by (intro failed_insertion_leaves_map_unchanged [of ?m 8 8 CapacityExhausted _ 0]) simp
  with thrown show ?thesis
    by simp
qed

lemma doInsert_result: "fst (doInsert m k val) = Inr () \<or> fst (doInsert m k val) = Inl CapacityExhausted"
  using doInsert_cases [of m k val] by auto

lemma insertOrUpdate_result:
  "insertOrUpdate m k val = (Inl e, m') \<Longrightarrow> e = CapacityExhausted"
  by (simp add: insertOrUpdate_throw)

text \<open>
  Claim C8 (the two errors are distinct). Both errors are \<^verbatim>\<open>std::runtime_error\<close> objects;
  they differ in their message. \<^verbatim>\<open>doInsert\<close> and \<^verbatim>\<open>insertOrUpdate\<close> raise no other error than
  \<open>CapacityExhausted\<close>. \<^verbatim>\<open>operator[]\<close> returns the slot of a key it finds; for a key it does not
  find it raises \<open>CapacityExhausted\<close> when its insertion throws, raises \<open>InvariantViolation\<close>
  when the insertion returns and the second lookup finds nothing, and returns the slot of the
  second lookup otherwise.
\<close>

theorem errors_distinguishable:
  "InvariantViolation \<noteq> CapacityExhausted
   \<and> (fst (doInsert m k val) = Inr () \<or> fst (doInsert m k val) = Inl CapacityExhausted)
   \<and> (fst (insertOrUpdate m k val) = Inr () \<or> fst (insertOrUpdate m k val) = Inl CapacityExhausted)
   \<and> operator_index d m k =
       (case findSlot m k of
          Some slotPtr \<Rightarrow> (Inr slotPtr, m)
        | None \<Rightarrow>
            (case insertOrUpdate m k d of
               (Inl e, m') \<Rightarrow> (Inl CapacityExhausted, m')
             | (Inr u, m') \<Rightarrow>
                 (case findSlot m' k of
                    None \<Rightarrow> (Inl InvariantViolation, m')
                  | Some slotPtr \<Rightarrow> (Inr slotPtr, m'))))"
proof -
  have ne: "InvariantViolation \<noteq> CapacityExhausted"
    by (simp add: InvariantViolation_def CapacityExhausted_def)
  have ins: "fst (doInsert m k val) = Inr () \<or> fst (doInsert m k val) = Inl CapacityExhausted"
    by (rule doInsert_result)
  have put: "fst (insertOrUpdate m k val) = Inr () \<or> fst (insertOrUpdate m k val) = Inl CapacityExhausted"
  proof (cases "insertOrUpdate m k val")
    case (Pair r m')
    thus ?thesis
      using insertOrUpdate_result [of m k val _ m'] by (cases r) auto
  qed
  obtain r m1 where r: "insertOrUpdate m k d = (r, m1)"
    by (cases "insertOrUpdate m k d")
  have "operator_index d m k =
       (case findSlot m k of
          Some slotPtr \<Rightarrow> (Inr slotPtr, m)
        | None \<Rightarrow>
            (case insertOrUpdate m k d of
               (Inl e, m') \<Rightarrow> (Inl CapacityExhausted, m')
             | (Inr u, m') \<Rightarrow>
                 (case findSlot m' k of
                    None \<Rightarrow> (Inl InvariantViolation, m')
                  | Some slotPtr \<Rightarrow> (Inr slotPtr, m'))))"
  proof (cases r)
    case (Inl e)
    with r insertOrUpdate_result [of m k d e m1] show ?thesis
      by (simp add: operator_index_def split: option.splits)
  next
    case (Inr u)
    with r show ?thesis
      by (simp add: operator_index_def InvariantViolation_def split: option.splits)
  qed
  with ne ins put show ?thesis
    by blast
qed

theorem errors_distinguishable_witness:
  "fst (operator_index 0
          (run 0 (ElasticHashMap_ctor (0 :: nat) (0 :: nat) 8 of_nat)
             [Put 0 0, Put 1 1, Put 2 2, Put 3 3, Put 4 4, Put 5 5, Put 6 6, Put 7 7])
          8) = Inl CapacityExhausted
   \<and> InvariantViolation \<noteq> CapacityExhausted
   \<and> fst (insertOrUpdate
          (run 0 (ElasticHashMap_ctor (0 :: nat) (0 :: nat) 8 of_nat)
             [Put 0 0, Put 1 1, Put 2 2, Put 3 3, Put 4 4, Put 5 5, Put 6 6, Put 7 7])
          8 0) = Inl CapacityExhausted"
  (is "fst (operator_index 0 ?m 8) = _ \<and> _")
proof -
  have absent: "findSlot ?m 8 = None"
    by code_simp
  have thrown: "fst (insertOrUpdate ?m 8 0) = Inl CapacityExhausted"
    by code_simp
  obtain r m' where put: "insertOrUpdate ?m 8 0 = (r, m')"
    by (cases "insertOrUpdate ?m 8 0")
  with thrown have r: "r = Inl CapacityExhausted"
    by simp
  from errors_distinguishable [of ?m 8 0 0]
  have ne: "InvariantViolation \<noteq> CapacityExhausted"
    and idx: "operator_index 0 ?m 8 =
       (case findSlot ?m 8 of
          Some slotPtr \<Rightarrow> (Inr slotPtr, ?m)
        | None \<Rightarrow>
            (case insertOrUpdate ?m 8 0 of
               (Inl e, m') \<Rightarrow> (Inl CapacityExhausted, m')
             | (Inr u, m') \<Rightarrow>
                 (case findSlot m' 8 of
                    None \<Rightarrow> (Inl InvariantViolation, m')
                  | Some slotPtr \<Rightarrow> (Inr slotPtr, m'))))"
    by blast+
  have "fst (operator_index 0 ?m 8) = Inl CapacityExhausted"
    unfolding idx absent put r by simp
  with ne thrown show ?thesis
    by simp
qed

text \<open>
  For a subarray of fewer than \<open>2 ^ 60\<close> slots the admission test does not overflow: it says
  that the fill fraction is strictly below nine tenths.
\<close>

lemma eligible_nat:
  assumes "unat (capacity sub) < 2 ^ 60" and "unat (size sub) \<le> unat (capacity sub)"
  shows "eligible sub \<longleftrightarrow> unat (size sub) * 10 < unat (capacity sub) * 9"
proof -
  have "unat (size sub) * unat (10 :: size_t) < 2 ^ LENGTH(64)"
    using assms by simp
  hence s: "unat (size sub * 10) = unat (size sub) * unat (10 :: size_t)"
    by (rule unat_mult_lem [THEN iffD1])
  have "unat (capacity sub) * unat (9 :: size_t) < 2 ^ LENGTH(64)"
    using assms by simp
  hence c: "unat (capacity sub * 9) = unat (capacity sub) * unat (9 :: size_t)"
    by (rule unat_mult_lem [THEN iffD1])
  show ?thesis
    by (simp add: eligible_def word_less_nat_alt s c)
qed

lemma set_value_keys:
  "map occupied ((slots sub)[j := (slots sub ! j)\<lparr>value := val\<rparr>]) = map occupied (slots sub)"
  "map key ((slots sub)[j := (slots sub ! j)\<lparr>value := val\<rparr>]) = map key (slots sub)"
  by (simp_all add: list_eq_iff_nth_eq set_value_nth)

text \<open>
  Claim C5 (fill threshold). Whatever \<^verbatim>\<open>doInsert\<close> changes in a subarray, and whatever
  \<^verbatim>\<open>insertOrUpdate\<close> changes in the size, the occupancy flags or the keys of a subarray, it
  changes only in a subarray that passed the test \<^verbatim>\<open>size * 10 < capacity * 9\<close> before the call.
\<close>

theorem fill_threshold_respected:
  assumes "i < length (subarrays m)"
    and "doInsert m k val = (r, m') \<and> subarrays m' ! i \<noteq> subarrays m ! i
       \<or> insertOrUpdate m k val = (r, m')
          \<and> (size (subarrays m' ! i) \<noteq> size (subarrays m ! i)
             \<or> map occupied (slots (subarrays m' ! i)) \<noteq> map occupied (slots (subarrays m ! i))
             \<or> map key (slots (subarrays m' ! i)) \<noteq> map key (slots (subarrays m ! i)))"
  shows "size (subarrays m ! i) * 10 < capacity (subarrays m ! i) * 9"
proof -
  have ins: "eligible (subarrays m ! i)"
    if run: "doInsert m k val = (r, m')" and ch: "subarrays m' ! i \<noteq> subarrays m ! i"
  proof -
    from doInsert_cases [of m k val] run ch obtain i0 sub' where
        i0: "eligible (subarrays m ! i0)" and m': "m' = m\<lparr>subarrays := (subarrays m)[i0 := sub']\<rparr>"
      by auto
    from ch have "i = i0"
      unfolding m' by (cases "i = i0") simp_all
    thus ?thesis
      using i0 by simp
  qed
  from assms(2) have "eligible (subarrays m ! i)"
  proof
    assume "doInsert m k val = (r, m') \<and> subarrays m' ! i \<noteq> subarrays m ! i"
    thus ?thesis
      using ins by blast
  next
    assume put: "insertOrUpdate m k val = (r, m')
          \<and> (size (subarrays m' ! i) \<noteq> size (subarrays m ! i)
             \<or> map occupied (slots (subarrays m' ! i)) \<noteq> map occupied (slots (subarrays m ! i))
             \<or> map key (slots (subarrays m' ! i)) \<noteq> map key (slots (subarrays m ! i)))"
    show ?thesis
    proof (cases "findSlot m k")
      case None
      with put have "doInsert m k val = (r, m')" and "subarrays m' ! i \<noteq> subarrays m ! i"
        by (auto simp: insertOrUpdate_cases)
      thus ?thesis
        by (rule ins)
    next
      case (Some p)
      obtain i0 j0 where p: "p = (i0, j0)"
        by (cases p)
      from put Some have m': "m' = assign_ref m p val"
        by (simp add: insertOrUpdate_cases)
      have "subarrays m' ! i = subarrays m ! i \<or> subarrays m' ! i = set_value (subarrays m ! i) j0 val"
        unfolding m' p assign_ref_set_value using assms(1) by (cases "i = i0") simp_all
      hence "size (subarrays m' ! i) = size (subarrays m ! i)
          \<and> map occupied (slots (subarrays m' ! i)) = map occupied (slots (subarrays m ! i))
          \<and> map key (slots (subarrays m' ! i)) = map key (slots (subarrays m ! i))"
        by (auto simp: set_value_keys)
      with put show ?thesis
        by simp
    qed
  qed
  thus ?thesis
    by (simp add: eligible_def)
qed

theorem fill_threshold_respected_witness:
  "(0 :: nat) < length (subarrays (ElasticHashMap_ctor (0 :: nat) (0 :: nat) 8 of_nat))
   \<and> subarrays (snd (doInsert (ElasticHashMap_ctor (0 :: nat) (0 :: nat) 8 of_nat) 5 7)) ! 0
       \<noteq> subarrays (ElasticHashMap_ctor (0 :: nat) (0 :: nat) 8 of_nat) ! 0
   \<and> size (subarrays (ElasticHashMap_ctor (0 :: nat) (0 :: nat) 8 of_nat) ! 0) * 10
       < capacity (subarrays (ElasticHashMap_ctor (0 :: nat) (0 :: nat) 8 of_nat) ! 0) * 9"
  (is "_ < length (subarrays ?m) \<and> _")
proof -
  have len: "0 < length (subarrays ?m)"
    by code_simp
  have changed: "subarrays (snd (doInsert ?m 5 7)) ! 0 \<noteq> subarrays ?m ! 0"
    by code_simp
  have "doInsert ?m 5 7 = (fst (doInsert ?m 5 7), snd (doInsert ?m 5 7))"
    by simp
  with changed have "size (subarrays ?m ! 0) * 10 < capacity (subarrays ?m ! 0) * 9"
    by (intro fill_threshold_respected [OF len, of 5 7 "fst (doInsert ?m 5 7)" "snd (doInsert ?m 5 7)"])
       blast
  with len changed show ?thesis
    by simp
qed

section \<open>Lookup results and positions\<close>

lemma nth_list_update_any:
  "xs[i := x] ! i' = (if i' = i \<and> i < length xs then x else xs ! i')"
  by (cases "i < length xs") (auto simp: nth_list_update list_update_beyond not_less)

lemma wf_map_nth: "wf_map m \<longleftrightarrow> (\<forall>i < length (subarrays m). wf_sub (subarrays m ! i))"
  by (simp add: wf_map_def list_all_length)

lemma find_in_sound:
  assumes "find_in hasher sub k = Some j" and "wf_sub sub"
  shows "j < length (slots sub)" and "occupied (slots sub ! j)" and "key (slots sub ! j) = k"
proof -
  from assms(1) have *: "j \<in> set (probe_seq (hasher k) (capacity sub))
      \<and> occupied (slots sub ! j) \<and> key (slots sub ! j) = k"
    unfolding find_in_along by (rule find_along_sound)
  thus "occupied (slots sub ! j)" and "key (slots sub ! j) = k"
    by simp_all
  from * have "j < unat (capacity sub)"
    by (auto dest: probe_seq_in_range)
  thus "j < length (slots sub)"
    using assms(2) by (simp add: wf_sub_def)
qed

lemma findSlot_Some:
  "findSlot m k = Some (i, j) \<longleftrightarrow>
     i < length (subarrays m) \<and> find_in (m_hasher m) (subarrays m ! i) k = Some j
       \<and> (\<forall>i' < i. find_in (m_hasher m) (subarrays m ! i') k = None)"
  by (simp add: findSlot_def findSlot_subs_Some)

lemma findSlot_None:
  "findSlot m k = None \<longleftrightarrow>
     (\<forall>i < length (subarrays m). find_in (m_hasher m) (subarrays m ! i) k = None)"
  by (simp add: findSlot_def findSlot_subs_None)

lemma findSlot_sound:
  assumes "findSlot m k = Some p" and "wf_map m"
  shows "valid_pos m p" and "occupied (slot_at m p)" and "key (slot_at m p) = k"
proof -
  obtain i j where p: "p = (i, j)"
    by (cases p)
  from assms(1) have i: "i < length (subarrays m)"
      and f: "find_in (m_hasher m) (subarrays m ! i) k = Some j"
    unfolding p findSlot_Some by simp_all
  from assms(2) i have wf: "wf_sub (subarrays m ! i)"
    by (simp add: wf_map_nth)
  show "valid_pos m p" and "occupied (slot_at m p)" and "key (slot_at m p) = k"
    using find_in_sound [OF f wf] i by (simp_all add: p valid_pos_def slot_at_def)
qed

text \<open>Two maps whose subarrays answer every search alike give the same lookup results.\<close>

lemma findSlot_cong:
  assumes "m_hasher m' = m_hasher m" and "length (subarrays m') = length (subarrays m)"
    and "\<And>i. i < length (subarrays m) \<Longrightarrow>
           find_in (m_hasher m) (subarrays m' ! i) k = find_in (m_hasher m) (subarrays m ! i) k"
  shows "findSlot m' k = findSlot m k"
proof (cases "findSlot m k")
  case None
  hence "findSlot m' k = None"
    using assms by (simp add: findSlot_None)
  with None show ?thesis
    by simp
next
  case (Some p)
  obtain i j where p: "p = (i, j)"
    by (cases p)
  from Some have "findSlot m' k = Some (i, j)"
    using assms unfolding p findSlot_Some by simp
  with Some p show ?thesis
    by simp
qed

lemma find_in_set_value: "find_in hasher (set_value sub j val) k = find_in hasher sub k"
  by (simp add: find_in_along find_along_set_value)

lemma subarrays_assign_ref:
  "subarrays (assign_ref m (i, j) val) = (subarrays m)[i := set_value (subarrays m ! i) j val]"
  "m_hasher (assign_ref m p val) = m_hasher m"
  by (simp add: assign_ref_set_value) (simp add: assign_ref_def)

lemma subarrays_place_at:
  "subarrays (place_at m (i, j) k val) = (subarrays m)[i := place (subarrays m ! i) j k val]"
  "m_hasher (place_at m p k val) = m_hasher m"
  by (simp_all add: place_at_def)

lemma findSlot_assign_ref: "findSlot (assign_ref m p val) k = findSlot m k"
proof -
  obtain i j where p: "p = (i, j)"
    by (cases p)
  show ?thesis
    unfolding p
    by (rule findSlot_cong) (simp_all add: subarrays_assign_ref nth_list_update_any find_in_set_value)
qed

lemma valid_pos_assign_ref: "valid_pos (assign_ref m p val) q = valid_pos m q"
proof -
  obtain i j where p: "p = (i, j)"
    by (cases p)
  show ?thesis
    unfolding p valid_pos_def by (auto simp: subarrays_assign_ref nth_list_update_any)
qed

lemma valid_pos_place_at: "valid_pos (place_at m p k val) q = valid_pos m q"
proof -
  obtain i j where p: "p = (i, j)"
    by (cases p)
  show ?thesis
    unfolding p valid_pos_def by (auto simp: subarrays_place_at nth_list_update_any)
qed

lemma slot_at_assign_ref:
  assumes "valid_pos m p"
  shows "slot_at (assign_ref m p val) q
           = (if q = p then (slot_at m p)\<lparr>value := val\<rparr> else slot_at m q)"
proof -
  obtain i j where p: "p = (i, j)"
    by (cases p)
  obtain i' j' where q: "q = (i', j')"
    by (cases q)
  show ?thesis
    using assms unfolding p q valid_pos_def slot_at_def
    by (auto simp: subarrays_assign_ref nth_list_update_any)
qed

lemma slot_at_place_at:
  assumes "valid_pos m p"
  shows "slot_at (place_at m p k val) q
           = (if q = p then \<lparr>occupied = True, key = k, value = val\<rparr> else slot_at m q)"
proof -
  obtain i j where p: "p = (i, j)"
    by (cases p)
  obtain i' j' where q: "q = (i', j')"
    by (cases q)
  show ?thesis
    using assms unfolding p q valid_pos_def slot_at_def
    by (auto simp: subarrays_place_at nth_list_update_any)
qed

lemma assign_ref_same:
  assumes "valid_pos m p" and "value (slot_at m p) = val"
  shows "assign_ref m p val = m"
proof -
  have "(slot_at m p)\<lparr>value := val\<rparr> = slot_at m p"
    using assms(2) by simp
  thus ?thesis
    using assms(1) by (simp add: assign_ref_def valid_pos_def slot_at_def)
qed

lemma wf_sub_set_value: "wf_sub (set_value sub j val) = wf_sub sub"
  by (simp add: wf_sub_def)

lemma wf_sub_place: "wf_sub (place sub j k val) = wf_sub sub"
  by (simp add: wf_sub_def)

lemma wf_map_assign_ref: "wf_map (assign_ref m p val) = wf_map m"
proof -
  obtain i j where p: "p = (i, j)"
    by (cases p)
  show ?thesis
    unfolding p wf_map_nth
    by (auto simp: subarrays_assign_ref nth_list_update_any wf_sub_set_value)
qed

lemma wf_map_place_at: "wf_map (place_at m p k val) = wf_map m"
proof -
  obtain i j where p: "p = (i, j)"
    by (cases p)
  show ?thesis
    unfolding p wf_map_nth
    by (auto simp: subarrays_place_at nth_list_update_any wf_sub_place)
qed

section \<open>The effect of an insertion\<close>

lemma doInsert_effect:
  assumes wf: "wf_map m" and absent: "findSlot m k = None"
  shows "doInsert m k val = (Inl CapacityExhausted, m)
       \<or> (\<exists>p. valid_pos m p \<and> \<not> occupied (slot_at m p) \<and> eligible (subarrays m ! fst p)
              \<and> doInsert m k val = (Inr (), place_at m p k val)
              \<and> findSlot (place_at m p k val) k = Some p)"
proof -
  from doInsert_cases [of m k val] show ?thesis
  proof
    assume "doInsert m k val = (Inl CapacityExhausted, m)"
    thus ?thesis
      by simp
  next
    assume "\<exists>i < length (subarrays m). eligible (subarrays m ! i)
        \<and> (\<exists>sub'. insert_along (subarrays m ! i) k val
                       (probe_seq (m_hasher m k) (capacity (subarrays m ! i))) = (True, sub')
                   \<and> doInsert m k val = (Inr (), m\<lparr>subarrays := (subarrays m)[i := sub']\<rparr>))"
    then obtain i sub' where i: "i < length (subarrays m)" and el: "eligible (subarrays m ! i)"
        and ins: "insert_along (subarrays m ! i) k val
                    (probe_seq (m_hasher m k) (capacity (subarrays m ! i))) = (True, sub')"
        and res: "doInsert m k val = (Inr (), m\<lparr>subarrays := (subarrays m)[i := sub']\<rparr>)"
      by blast
    define sub where "sub = subarrays m ! i"
    define idxs where "idxs = probe_seq (m_hasher m k) (capacity sub)"
    have none: "\<forall>i' < length (subarrays m). find_in (m_hasher m) (subarrays m ! i') k = None"
      using absent by (simp add: findSlot_None)
    hence "find_along sub k idxs = None"
      using i by (simp add: find_in_along sub_def idxs_def)
    from insert_along_absent [OF this, of val] ins obtain j where
        j: "j \<in> set idxs" "\<not> occupied (slots sub ! j)" and sub': "sub' = place sub j k val"
        and found: "j < length (slots sub) \<longrightarrow> find_along (place sub j k val) k idxs = Some j"
      unfolding sub_def idxs_def by auto
    have "wf_sub sub"
      using wf i by (simp add: wf_map_nth sub_def)
    hence len: "j < length (slots sub)"
      using j(1) probe_seq_in_range [of j "m_hasher m k" "capacity sub"]
      by (simp add: wf_sub_def idxs_def)
    have valid: "valid_pos m (i, j)"
      using i len by (simp add: valid_pos_def sub_def)
    have empty: "\<not> occupied (slot_at m (i, j))"
      using j(2) by (simp add: slot_at_def sub_def)
    have m': "m\<lparr>subarrays := (subarrays m)[i := sub']\<rparr> = place_at m (i, j) k val"
      by (simp add: place_at_def sub' sub_def)
    have "find_in (m_hasher m) (place sub j k val) k = Some j"
      using found len by (simp add: find_in_along idxs_def)
    hence "findSlot (place_at m (i, j) k val) k = Some (i, j)"
      unfolding findSlot_Some using i none
      by (simp add: subarrays_place_at nth_list_update_any sub_def)
    thus ?thesis
      using valid empty el res m' by (intro disjI2 exI [of _ "(i, j)"]) simp
  qed
qed

lemma insertOrUpdate_effect:
  assumes wf: "wf_map m"
  shows "(\<exists>p. findSlot m k = Some p \<and> insertOrUpdate m k val = (Inr (), assign_ref m p val))
       \<or> (findSlot m k = None \<and> insertOrUpdate m k val = (Inl CapacityExhausted, m))
       \<or> (\<exists>p. findSlot m k = None \<and> valid_pos m p \<and> \<not> occupied (slot_at m p)
              \<and> eligible (subarrays m ! fst p)
              \<and> insertOrUpdate m k val = (Inr (), place_at m p k val)
              \<and> findSlot (place_at m p k val) k = Some p)"
proof (cases "findSlot m k")
  case (Some p)
  thus ?thesis
    by (simp add: insertOrUpdate_cases)
next
  case None
  from doInsert_effect [OF wf None, of val] show ?thesis
    using None by (auto simp: insertOrUpdate_cases)
qed

text \<open>Placing a key that lookup does not find keeps every other key where lookup finds it.\<close>

lemma findSlot_place_at:
  assumes wf: "wf_map m" and inv: "keys_findable m"
    and p: "valid_pos m p" "\<not> occupied (slot_at m p)"
    and absent: "findSlot m k = None"
    and q: "findSlot m k' = Some q"
  shows "findSlot (place_at m p k val) k' = Some q"
proof -
  obtain i j where pe: "p = (i, j)"
    by (cases p)
  obtain a b where qe: "q = (a, b)"
    by (cases q)
  define m' where "m' = place_at m (i, j) k val"
  have sub': "subarrays m' = (subarrays m)[i := place (subarrays m ! i) j k val]"
      and h': "m_hasher m' = m_hasher m"
    by (simp_all add: m'_def subarrays_place_at)
  from p have i: "i < length (subarrays m)" and j: "j < length (slots (subarrays m ! i))"
      and empty: "\<not> occupied (slots (subarrays m ! i) ! j)"
    by (simp_all add: pe valid_pos_def slot_at_def)
  from q have a: "a < length (subarrays m)"
      and fa: "find_in (m_hasher m) (subarrays m ! a) k' = Some b"
      and before: "\<forall>i' < a. find_in (m_hasher m) (subarrays m ! i') k' = None"
    unfolding qe findSlot_Some by simp_all
  have neq: "k' \<noteq> k"
    using absent q by auto
  have "find_in (m_hasher m) (subarrays m' ! a) k' = Some b"
  proof (cases "a = i")
    case False
    thus ?thesis
      using fa by (simp add: sub' nth_list_update_any)
  next
    case True
    have "find_along (place (subarrays m ! i) j k val) k'
            (probe_seq (m_hasher m k') (capacity (subarrays m ! i))) = Some b"
      using empty fa unfolding True find_in_along by (rule find_along_place)
    thus ?thesis
      using True i by (simp add: sub' find_in_along)
  qed
  moreover have "find_in (m_hasher m) (subarrays m' ! i') k' = None" if "i' < a" for i'
  proof (cases "i' = i")
    case False
    thus ?thesis
      using before that by (simp add: sub' nth_list_update_any)
  next
    case True
    show ?thesis
    proof (rule ccontr)
      assume "find_in (m_hasher m) (subarrays m' ! i') k' \<noteq> None"
      then obtain c where c: "find_in (m_hasher m) (place (subarrays m ! i) j k val) k' = Some c"
        using True i by (auto simp: sub')
      have "wf_sub (place (subarrays m ! i) j k val)"
        using wf i by (simp add: wf_sub_place wf_map_nth)
      from find_in_sound [OF c this]
      have c_len: "c < length (slots (subarrays m ! i))"
          and c_occ: "occupied ((slots (subarrays m ! i))[j := \<lparr>occupied = True, key = k, value = val\<rparr>] ! c)"
          and c_key: "key ((slots (subarrays m ! i))[j := \<lparr>occupied = True, key = k, value = val\<rparr>] ! c) = k'"
        by simp_all
      have "c \<noteq> j"
        using c_key neq j by auto
      hence "occupied (slots (subarrays m ! i) ! c)" and "key (slots (subarrays m ! i) ! c) = k'"
        using c_occ c_key by simp_all
      hence "findSlot m k' = Some (i, c)"
        using inv i c_len unfolding keys_findable_def valid_pos_def slot_at_def
        by (metis fst_conv snd_conv)
      with q qe that True show False
        by simp
    qed
  qed
  ultimately show ?thesis
    unfolding pe qe findSlot_Some m'_def [symmetric] using a by (simp add: sub' h')
qed

section \<open>Preservation of the invariant\<close>

lemma keys_findableD:
  "keys_findable m \<Longrightarrow> valid_pos m q \<Longrightarrow> occupied (slot_at m q) \<Longrightarrow>
     findSlot m (key (slot_at m q)) = Some q"
  unfolding keys_findable_def by blast

lemma sizes_ok_nth:
  "sizes_ok m \<longleftrightarrow> (\<forall>i < length (subarrays m). unat (size (subarrays m ! i)) = occupancy (subarrays m ! i))"
  by (simp add: sizes_ok_def list_all_length)

lemma filter_length_cong:
  "map P xs = map P ys \<Longrightarrow> length (filter P xs) = length (filter P ys)"
proof (induction xs arbitrary: ys)
  case Nil
  thus ?case by simp
next
  case (Cons x xs)
  then obtain y ys' where "ys = y # ys'" "P x = P y" "map P xs = map P ys'"
    by (cases ys) auto
  thus ?case
    using Cons.IH [of ys'] by simp
qed

lemma occupancy_set_value: "occupancy (set_value sub j val) = occupancy sub"
  unfolding occupancy_def by (rule filter_length_cong) (simp add: set_value_keys)

lemma filter_update_new:
  "j < length xs \<Longrightarrow> \<not> P (xs ! j) \<Longrightarrow> P x \<Longrightarrow>
     length (filter P (xs[j := x])) = Suc (length (filter P xs))"
proof (induction xs arbitrary: j)
  case Nil
  thus ?case by simp
next
  case (Cons y ys)
  thus ?case
    by (cases j) simp_all
qed

lemma occupancy_place:
  assumes "j < length (slots sub)" and "\<not> occupied (slots sub ! j)"
  shows "occupancy (place sub j k val) = Suc (occupancy sub)"
  using assms by (simp add: occupancy_def filter_update_new)

lemma occupancy_below:
  assumes "j < length (slots sub)" and "\<not> occupied (slots sub ! j)"
  shows "occupancy sub < length (slots sub)"
  unfolding occupancy_def using assms by (intro length_filter_less [of "slots sub ! j"]) simp_all

lemma size_place:
  assumes "wf_sub sub" and "unat (size sub) = occupancy sub"
    and "j < length (slots sub)" and "\<not> occupied (slots sub ! j)"
  shows "unat (size sub + 1) = Suc (unat (size sub))" and "size sub \<le> size sub + 1"
proof -
  have "unat (size sub) < unat (capacity sub)"
    using assms occupancy_below [of j sub] by (simp add: wf_sub_def)
  hence "size sub < capacity sub"
    by (simp add: word_less_nat_alt)
  thus "unat (size sub + 1) = Suc (unat (size sub))"
    by (rule probe_succ)
  thus "size sub \<le> size sub + 1"
    by (simp add: word_le_nat_alt)
qed

lemma size_le_capacity:
  assumes "wf_sub sub" and "unat (size sub) = occupancy sub"
  shows "size sub \<le> capacity sub"
proof -
  have "occupancy sub \<le> length (slots sub)"
    by (simp add: occupancy_def)
  thus ?thesis
    using assms by (simp add: word_le_nat_alt wf_sub_def)
qed

subsection \<open>A write through a reference\<close>

lemma map_inv_assign_ref:
  assumes "map_inv m" and "valid_pos m p"
  shows "map_inv (assign_ref m p val)"
proof -
  obtain i j where p: "p = (i, j)"
    by (cases p)
  have "sizes_ok (assign_ref m p val)"
    using assms(1) unfolding p sizes_ok_nth map_inv_def
    by (auto simp: subarrays_assign_ref nth_list_update_any occupancy_set_value
             simp del: slots_set_value(1))
  moreover have "keys_findable (assign_ref m p val)"
    unfolding keys_findable_def
  proof (intro allI impI)
    fix q
    assume q: "valid_pos (assign_ref m p val) q \<and> occupied (slot_at (assign_ref m p val) q)"
    hence vq: "valid_pos m q"
      by (simp add: valid_pos_assign_ref)
    have same: "occupied (slot_at m q)" "key (slot_at (assign_ref m p val) q) = key (slot_at m q)"
      using q assms(2) by (auto simp: slot_at_assign_ref split: if_splits)
    from assms(1) have "keys_findable m"
      by (simp add: map_inv_def)
    from keys_findableD [OF this vq same(1)]
    show "findSlot (assign_ref m p val) (key (slot_at (assign_ref m p val) q)) = Some q"
      by (simp add: findSlot_assign_ref same(2))
  qed
  ultimately show ?thesis
    using assms(1) by (simp add: map_inv_def wf_map_assign_ref)
qed

lemma grows_assign_ref: "grows m (assign_ref m p val)"
proof -
  obtain i j where p: "p = (i, j)"
    by (cases p)
  show ?thesis
    unfolding p grows_def by (simp add: subarrays_assign_ref nth_list_update_any)
qed

subsection \<open>A placement\<close>

lemma map_inv_place_at:
  assumes inv: "map_inv m" and p: "valid_pos m p" "\<not> occupied (slot_at m p)"
    and absent: "findSlot m k = None" and found: "findSlot (place_at m p k val) k = Some p"
  shows "map_inv (place_at m p k val)"
proof -
  obtain i j where pe: "p = (i, j)"
    by (cases p)
  from inv have wf: "wf_map m" and sz: "sizes_ok m" and kf: "keys_findable m"
    by (simp_all add: map_inv_def)
  from p have i: "i < length (subarrays m)" and j: "j < length (slots (subarrays m ! i))"
      and empty: "\<not> occupied (slots (subarrays m ! i) ! j)"
    by (simp_all add: pe valid_pos_def slot_at_def)
  have wfi: "wf_sub (subarrays m ! i)" and szi: "unat (size (subarrays m ! i)) = occupancy (subarrays m ! i)"
    using wf sz i by (simp_all add: wf_map_nth sizes_ok_nth)
  have "unat (size (place (subarrays m ! i) j k val)) = occupancy (place (subarrays m ! i) j k val)"
    using size_place(1) [OF wfi szi j empty] occupancy_place [OF j empty] szi
    by (simp del: slots_place(1))
  hence "sizes_ok (place_at m p k val)"
    using sz unfolding pe sizes_ok_nth
    by (auto simp: subarrays_place_at nth_list_update_any simp del: slots_place(1))
  moreover have "keys_findable (place_at m p k val)"
    unfolding keys_findable_def
  proof (intro allI impI)
    fix q
    assume q: "valid_pos (place_at m p k val) q \<and> occupied (slot_at (place_at m p k val) q)"
    hence vq: "valid_pos m q"
      by (simp add: valid_pos_place_at)
    show "findSlot (place_at m p k val) (key (slot_at (place_at m p k val) q)) = Some q"
    proof (cases "q = p")
      case True
      thus ?thesis
        using found p(1) by (simp add: slot_at_place_at)
    next
      case False
      hence same: "slot_at (place_at m p k val) q = slot_at m q"
        using p(1) by (simp add: slot_at_place_at)
      have "occupied (slot_at m q)"
        using q same by simp
      with vq kf have "findSlot m (key (slot_at m q)) = Some q"
        by (intro keys_findableD)
      from findSlot_place_at [OF wf kf p absent this] show ?thesis
        by (simp add: same)
    qed
  qed
  ultimately show ?thesis
    using wf by (simp add: map_inv_def wf_map_place_at)
qed

lemma grows_place_at:
  assumes inv: "map_inv m" and p: "valid_pos m p" "\<not> occupied (slot_at m p)"
  shows "grows m (place_at m p k val)"
proof -
  obtain i j where pe: "p = (i, j)"
    by (cases p)
  from p have i: "i < length (subarrays m)" and j: "j < length (slots (subarrays m ! i))"
      and empty: "\<not> occupied (slots (subarrays m ! i) ! j)"
    by (simp_all add: pe valid_pos_def slot_at_def)
  have "wf_sub (subarrays m ! i)" and "unat (size (subarrays m ! i)) = occupancy (subarrays m ! i)"
    using inv i by (simp_all add: map_inv_def wf_map_nth sizes_ok_nth)
  from size_place(2) [OF this j empty] show ?thesis
    unfolding pe grows_def by (simp add: subarrays_place_at nth_list_update_any)
qed

lemma grows_refl: "grows m m"
  by (simp add: grows_def)

lemma grows_trans: "grows m m' \<Longrightarrow> grows m' m'' \<Longrightarrow> grows m m''"
  unfolding grows_def by (auto intro: order_trans)

section \<open>Single operations and sequences\<close>

lemma operator_index_effect:
  assumes wf: "wf_map m"
  shows "(\<exists>p. findSlot m k = Some p \<and> operator_index d m k = (Inr p, m))
       \<or> (findSlot m k = None \<and> operator_index d m k = (Inl CapacityExhausted, m))
       \<or> (\<exists>p. findSlot m k = None \<and> valid_pos m p \<and> \<not> occupied (slot_at m p)
              \<and> eligible (subarrays m ! fst p)
              \<and> operator_index d m k = (Inr p, place_at m p k d)
              \<and> findSlot (place_at m p k d) k = Some p)"
proof (cases "findSlot m k")
  case (Some p)
  thus ?thesis
    by (simp add: operator_index_def)
next
  case None
  from insertOrUpdate_effect [OF wf, of k d] None
  consider "insertOrUpdate m k d = (Inl CapacityExhausted, m)"
    | p where "valid_pos m p" "\<not> occupied (slot_at m p)" "eligible (subarrays m ! fst p)"
        "insertOrUpdate m k d = (Inr (), place_at m p k d)"
        "findSlot (place_at m p k d) k = Some p"
    by auto
  thus ?thesis
  proof cases
    case 1
    thus ?thesis
      using None by (simp add: operator_index_def)
  next
    case (2 p)
    hence "operator_index d m k = (Inr p, place_at m p k d)"
      using None by (simp add: operator_index_def)
    thus ?thesis
      using None 2 by (intro disjI2 exI [of _ p]) simp
  qed
qed

lemma lookup_assign_ref:
  assumes wf: "wf_map m" and p: "findSlot m k = Some p" and q: "findSlot m K = Some q"
  shows "findSlot (assign_ref m p val) K = Some q"
    and "value (slot_at (assign_ref m p val) q) = (if k = K then val else value (slot_at m q))"
proof -
  show "findSlot (assign_ref m p val) K = Some q"
    using q by (simp add: findSlot_assign_ref)
  have vp: "valid_pos m p" and kp: "key (slot_at m p) = k"
    using findSlot_sound [OF p wf] by simp_all
  have kq: "key (slot_at m q) = K"
    using findSlot_sound [OF q wf] by simp
  have "q = p \<longleftrightarrow> k = K"
  proof
    assume "q = p"
    with kp kq show "k = K"
      by simp
  next
    assume "k = K"
    with p q show "q = p"
      by simp
  qed
  thus "value (slot_at (assign_ref m p val) q) = (if k = K then val else value (slot_at m q))"
    using vp by (simp add: slot_at_assign_ref)
qed

lemma lookup_place_at:
  assumes inv: "map_inv m" and p: "valid_pos m p" "\<not> occupied (slot_at m p)"
    and absent: "findSlot m k = None" and q: "findSlot m K = Some q"
  shows "findSlot (place_at m p k val) K = Some q"
    and "value (slot_at (place_at m p k val) q) = value (slot_at m q)"
    and "k \<noteq> K"
proof -
  from inv have wf: "wf_map m" and kf: "keys_findable m"
    by (simp_all add: map_inv_def)
  show "findSlot (place_at m p k val) K = Some q"
    by (rule findSlot_place_at [OF wf kf p absent q])
  have "occupied (slot_at m q)"
    using findSlot_sound [OF q wf] by simp
  hence "q \<noteq> p"
    using p(2) by auto
  thus "value (slot_at (place_at m p k val) q) = value (slot_at m q)"
    using p(1) by (simp add: slot_at_place_at)
  show "k \<noteq> K"
    using absent q by auto
qed

lemma step_inv:
  assumes inv: "map_inv m"
  shows "map_inv (step d m a) \<and> grows m (step d m a)"
proof -
  from inv have wf: "wf_map m"
    by (simp add: map_inv_def)
  have put: "map_inv (snd (insertOrUpdate m k val)) \<and> grows m (snd (insertOrUpdate m k val))"
    for k val
    using insertOrUpdate_effect [OF wf, of k val]
  proof (elim disjE exE conjE)
    fix p
    assume p: "findSlot m k = Some p" and r: "insertOrUpdate m k val = (Inr (), assign_ref m p val)"
    from findSlot_sound(1) [OF p wf] show ?thesis
      using r inv by (simp add: map_inv_assign_ref grows_assign_ref)
  next
    assume "insertOrUpdate m k val = (Inl CapacityExhausted, m)"
    thus ?thesis
      using inv by (simp add: grows_refl)
  next
    fix p
    assume "findSlot m k = None" "valid_pos m p" "\<not> occupied (slot_at m p)"
      "insertOrUpdate m k val = (Inr (), place_at m p k val)"
      "findSlot (place_at m p k val) k = Some p"
    thus ?thesis
      using inv by (simp add: map_inv_place_at grows_place_at)
  qed
  have idx: "map_inv (snd (operator_index d m k)) \<and> grows m (snd (operator_index d m k))
      \<and> (\<forall>p. fst (operator_index d m k) = Inr p \<longrightarrow>
            valid_pos (snd (operator_index d m k)) p)"
    for k
    using operator_index_effect [OF wf, of k d]
  proof (elim disjE exE conjE)
    fix p
    assume p: "findSlot m k = Some p" and r: "operator_index d m k = (Inr p, m)"
    from findSlot_sound(1) [OF p wf] show ?thesis
      using r inv by (simp add: grows_refl)
  next
    assume "operator_index d m k = (Inl CapacityExhausted, m)"
    thus ?thesis
      using inv by (simp add: grows_refl)
  next
    fix p
    assume "findSlot m k = None" "valid_pos m p" "\<not> occupied (slot_at m p)"
      "operator_index d m k = (Inr p, place_at m p k d)"
      "findSlot (place_at m p k d) k = Some p"
    thus ?thesis
      using inv by (simp add: map_inv_place_at grows_place_at valid_pos_place_at)
  qed
  show ?thesis
  proof (cases a)
    case (Count k)
    thus ?thesis
      using inv by (simp add: grows_refl)
  next
    case (Index k)
    thus ?thesis
      using idx [of k] by simp
  next
    case (Put k val)
    thus ?thesis
      using put [of k val] by simp
  next
    case (Assign k val)
    obtain r m1 where r: "operator_index d m k = (r, m1)"
      by (cases "operator_index d m k")
    from idx [of k] r have m1: "map_inv m1" "grows m m1" and ok: "\<forall>p. r = Inr p \<longrightarrow> valid_pos m1 p"
      by simp_all
    show ?thesis
    proof (cases r)
      case (Inl e)
      thus ?thesis
        using Assign r m1 by simp
    next
      case (Inr p)
      with ok have "valid_pos m1 p"
        by simp
      hence "map_inv (assign_ref m1 p val)" and "grows m (assign_ref m1 p val)"
        using m1 grows_assign_ref [of m1 p val] by (auto intro: map_inv_assign_ref grows_trans)
      thus ?thesis
        using Assign r Inr by simp
    qed
  qed
qed

lemma step_lookup:
  assumes inv: "map_inv m" and q: "findSlot m K = Some q"
  shows "findSlot (step d m a) K = Some q
       \<and> value (slot_at (step d m a) q) = last_written K (value (slot_at m q)) [a]"
proof -
  from inv have wf: "wf_map m"
    by (simp add: map_inv_def)
  show ?thesis
  proof (cases a)
    case (Count k)
    thus ?thesis
      using q by simp
  next
    case (Put k val)
    from insertOrUpdate_effect [OF wf, of k val] show ?thesis
    proof (elim disjE exE conjE)
      fix p
      assume p: "findSlot m k = Some p" and r: "insertOrUpdate m k val = (Inr (), assign_ref m p val)"
      from lookup_assign_ref [OF wf p q, of val] show ?thesis
        using Put r by simp
    next
      assume "findSlot m k = None" "insertOrUpdate m k val = (Inl CapacityExhausted, m)"
      thus ?thesis
        using Put q by auto
    next
      fix p
      assume p: "findSlot m k = None" "valid_pos m p" "\<not> occupied (slot_at m p)"
        and r: "insertOrUpdate m k val = (Inr (), place_at m p k val)"
      from lookup_place_at(1,2) [OF inv p(2,3,1) q, of val] lookup_place_at(3) [OF inv p(2,3,1) q]
      show ?thesis
        using Put r by simp
    qed
  next
    case (Index k)
    from operator_index_effect [OF wf, of k d] show ?thesis
    proof (elim disjE exE conjE)
      fix p
      assume "operator_index d m k = (Inr p, m)"
      thus ?thesis
        using Index q by simp
    next
      assume "operator_index d m k = (Inl CapacityExhausted, m)"
      thus ?thesis
        using Index q by simp
    next
      fix p
      assume p: "findSlot m k = None" "valid_pos m p" "\<not> occupied (slot_at m p)"
        and r: "operator_index d m k = (Inr p, place_at m p k d)"
      from lookup_place_at(1,2) [OF inv p(2,3,1) q, of d] lookup_place_at(3) [OF inv p(2,3,1) q]
      show ?thesis
        using Index r by simp
    qed
  next
    case (Assign k val)
    from operator_index_effect [OF wf, of k d] show ?thesis
    proof (elim disjE exE conjE)
      fix p
      assume p: "findSlot m k = Some p" and r: "operator_index d m k = (Inr p, m)"
      from lookup_assign_ref [OF wf p q, of val] show ?thesis
        using Assign r by simp
    next
      assume "findSlot m k = None" "operator_index d m k = (Inl CapacityExhausted, m)"
      thus ?thesis
        using Assign q by auto
    next
      fix p
      assume p: "findSlot m k = None" "valid_pos m p" "\<not> occupied (slot_at m p)"
        and r: "operator_index d m k = (Inr p, place_at m p k d)"
        and found: "findSlot (place_at m p k d) k = Some p"
      define m1 where "m1 = place_at m p k d"
      have q1: "findSlot m1 K = Some q" "value (slot_at m1 q) = value (slot_at m q)" "k \<noteq> K"
        unfolding m1_def by (rule lookup_place_at [OF inv p(2,3,1) q])+
      have "wf_map m1"
        using wf by (simp add: m1_def wf_map_place_at)
      from lookup_assign_ref [OF this found [folded m1_def] q1(1), of val] q1(2,3)
      show ?thesis
        using Assign r by (simp add: m1_def)
    qed
  qed
qed

lemma last_written_Cons:
  "last_written K v (a # ops) = last_written K (last_written K v [a]) ops"
  by (cases a) simp_all

lemma run_inv: "map_inv m \<Longrightarrow> map_inv (run d m ops)"
  by (induction ops arbitrary: m) (simp_all add: step_inv)

lemma run_lookup:
  assumes "map_inv m" and "findSlot m K = Some q"
  shows "findSlot (run d m ops) K = Some q
       \<and> value (slot_at (run d m ops) q) = last_written K (value (slot_at m q)) ops"
  using assms
proof (induction ops arbitrary: m)
  case Nil
  thus ?case by simp
next
  case (Cons a ops)
  from step_lookup [OF Cons.prems, of d a] step_inv [OF Cons.prems(1), of d a]
  have "findSlot (step d m a) K = Some q" and "map_inv (step d m a)"
      and v: "value (slot_at (step d m a) q) = last_written K (value (slot_at m q)) [a]"
    by simp_all
  from Cons.IH [OF this(2,1)] show ?case
    by (simp add: v last_written_Cons [of K _ a ops])
qed

section \<open>Maps built by the constructor\<close>

lemma ctor_loop_fresh:
  "s \<in> set (ctor_loop k0 v0 remaining subs) \<Longrightarrow>
     s \<in> set subs \<or> (\<exists>c. s = Subarray_ctor k0 v0 c)"
proof (induction "unat remaining" arbitrary: remaining subs rule: less_induct)
  case less
  show ?case
  proof (cases "0 < remaining")
    case False
    hence "remaining = 0"
      by (simp add: word_greater_zero_iff)
    thus ?thesis
      using less.prems by (simp add: ctor_loop_stop)
  next
    case True
    from ctor_loop_step [OF True, of k0 v0 subs] obtain c where
      c: "c \<le> remaining" "c \<noteq> 0" and
      step: "ctor_loop k0 v0 remaining subs
               = ctor_loop k0 v0 (remaining - c) (subs @ [Subarray_ctor k0 v0 c])"
      by blast
    have "unat (remaining - c) = unat remaining - unat c"
      using c(1) by (simp add: unat_sub)
    moreover have "unat c \<le> unat remaining" and "0 < unat c"
      using c by (simp_all add: word_le_nat_alt unat_gt_0)
    ultimately have "unat (remaining - c) < unat remaining"
      by simp
    from less.hyps [OF this, of "subs @ [Subarray_ctor k0 v0 c]"] less.prems
    show ?thesis
      unfolding step by auto
  qed
qed

lemma ctor_fresh:
  assumes "i < length (subarrays (ElasticHashMap_ctor k0 v0 n hasher))"
  shows "\<exists>c. subarrays (ElasticHashMap_ctor k0 v0 n hasher) ! i = Subarray_ctor k0 v0 c"
proof -
  have "subarrays (ElasticHashMap_ctor k0 v0 n hasher) ! i
          \<in> set (ctor_loop k0 v0 (if n < 8 then 8 else n) [])"
    using assms by (simp add: ElasticHashMap_ctor_def Let_def)
  from ctor_loop_fresh [OF this] show ?thesis
    by simp
qed

lemma Subarray_ctor_empty:
  "wf_sub (Subarray_ctor k0 v0 c)"
  "unat (size (Subarray_ctor k0 v0 c)) = occupancy (Subarray_ctor k0 v0 c)"
  "j < length (slots (Subarray_ctor k0 v0 c)) \<Longrightarrow> \<not> occupied (slots (Subarray_ctor k0 v0 c) ! j)"
  by (simp_all add: Subarray_ctor_def wf_sub_def occupancy_def Slot_default_def)

lemma ctor_inv: "map_inv (ElasticHashMap_ctor k0 v0 n hasher)"
proof -
  define m where "m = ElasticHashMap_ctor k0 v0 n hasher"
  have fresh: "\<exists>c. subarrays m ! i = Subarray_ctor k0 v0 c" if "i < length (subarrays m)" for i
    using that unfolding m_def by (rule ctor_fresh)
  have "wf_map m"
    unfolding wf_map_nth using fresh Subarray_ctor_empty(1) by metis
  moreover have "sizes_ok m"
    unfolding sizes_ok_nth using fresh Subarray_ctor_empty(2) by metis
  moreover have "keys_findable m"
    unfolding keys_findable_def
  proof (intro allI impI)
    fix p
    assume p: "valid_pos m p \<and> occupied (slot_at m p)"
    then obtain c where "subarrays m ! fst p = Subarray_ctor k0 v0 c"
      using fresh by (auto simp: valid_pos_def)
    with p have False
      using Subarray_ctor_empty(3) [of "snd p" k0 v0 c] by (simp add: valid_pos_def slot_at_def)
    thus "findSlot m (key (slot_at m p)) = Some p"
      by simp
  qed
  ultimately show ?thesis
    by (simp add: map_inv_def m_def)
qed

lemma reachable_inv: "map_inv (run d (ElasticHashMap_ctor k0 v0 n hasher) ops)"
  by (intro run_inv ctor_inv)

lemma insertOrUpdate_stored:
  assumes wf: "wf_map m" and ok: "insertOrUpdate m k val = (Inr (), m')"
  shows "\<exists>p. findSlot m' k = Some p \<and> valid_pos m' p \<and> value (slot_at m' p) = val"
  using insertOrUpdate_effect [OF wf, of k val]
proof (elim disjE exE conjE)
  fix p
  assume p: "findSlot m k = Some p" and r: "insertOrUpdate m k val = (Inr (), assign_ref m p val)"
  have vp: "valid_pos m p"
    by (rule findSlot_sound(1) [OF p wf])
  have "findSlot m' k = Some p" and "value (slot_at m' p) = val"
    using lookup_assign_ref [OF wf p p, of val] r ok by simp_all
  moreover have "valid_pos m' p"
    using vp r ok by (simp add: valid_pos_assign_ref)
  ultimately show ?thesis
    by blast
next
  assume "insertOrUpdate m k val = (Inl CapacityExhausted, m)"
  with ok show ?thesis
    by simp
next
  fix p
  assume p: "valid_pos m p" and r: "insertOrUpdate m k val = (Inr (), place_at m p k val)"
    and found: "findSlot (place_at m p k val) k = Some p"
  have "value (slot_at (place_at m p k val) p) = val"
    using p by (simp add: slot_at_place_at)
  moreover have "valid_pos (place_at m p k val) p"
    using p by (simp add: valid_pos_place_at)
  ultimately show ?thesis
    using found r ok by auto
qed

text \<open>
  On a map whose subarrays have as many slots as their capacity says, the second lookup of
  \<^verbatim>\<open>operator[]\<close> cannot fail: \<open>InvariantViolation\<close> is never raised there.
\<close>

lemma invariant_violation_unreachable:
  assumes "wf_map m"
  shows "fst (operator_index d m k) \<noteq> Inl InvariantViolation"
proof
  assume iv: "fst (operator_index d m k) = Inl InvariantViolation"
  hence thrown: "operator_index d m k = (Inl InvariantViolation, snd (operator_index d m k))"
    by (simp add: prod_eq_iff)
  have ne: "InvariantViolation \<noteq> CapacityExhausted"
    by (simp add: InvariantViolation_def CapacityExhausted_def)
  from operator_index_throw(2) [OF thrown] ne
  have ok: "insertOrUpdate m k d = (Inr (), snd (operator_index d m k))"
      and none: "findSlot (snd (operator_index d m k)) k = None"
    by auto
  from insertOrUpdate_stored [OF assms ok] none show False
    by auto
qed

text \<open>
  Claim C3 (no loss after insert). On a map built by the constructor and any operations, once
  \<^verbatim>\<open>insertOrUpdate\<close> has returned for a key \<open>K\<close>, after every further sequence of operations
  \<^verbatim>\<open>count\<close> is true for \<open>K\<close>, and \<^verbatim>\<open>findSlot\<close> and \<^verbatim>\<open>operator[]\<close> give the slot that holds the value
  most recently written for \<open>K\<close>; \<^verbatim>\<open>operator[]\<close> leaves the map as it is.
\<close>

theorem no_loss_after_insert:
  assumes "m0 = run d (ElasticHashMap_ctor k0 v0 n hasher) ops0"
    and "insertOrUpdate m0 K V = (Inr (), m1)"
    and "m2 = run d m1 ops"
  shows "count m2 K
       \<and> (\<exists>q. findSlot m2 K = Some q \<and> operator_index d m2 K = (Inr q, m2)
              \<and> value (slot_at m2 q) = last_written K V ops)"
proof -
  have inv0: "map_inv m0"
    unfolding assms(1) by (rule reachable_inv)
  hence wf0: "wf_map m0"
    by (simp add: map_inv_def)
  have "m1 = step d m0 (Put K V)"
    using assms(2) by simp
  hence inv1: "map_inv m1"
    using step_inv [OF inv0, of d "Put K V"] by simp
  from insertOrUpdate_stored [OF wf0 assms(2)] obtain q where
      q: "findSlot m1 K = Some q" "value (slot_at m1 q) = V"
    by blast
  from run_lookup [OF inv1 q(1), of d ops]
  have found: "findSlot m2 K = Some q" and v: "value (slot_at m2 q) = last_written K V ops"
    by (simp_all add: assms(3) q(2))
  hence "operator_index d m2 K = (Inr q, m2)"
    by (simp add: operator_index_def)
  with found v show ?thesis
    by (simp add: count_def)
qed

text \<open>
  Claim C4 (idempotent update). On a map whose subarrays have as many slots as their capacity
  says, a second \<^verbatim>\<open>insertOrUpdate\<close> with the same key and value has the result of the first
  and leaves the map exactly as the first call left it; after a call that returned, lookup
  finds the key with the value \<open>V\<close>.
\<close>

theorem put_idempotent:
  assumes "wf_map m" and "insertOrUpdate m K V = (r, m1)"
  shows "insertOrUpdate m1 K V = (r, m1)
       \<and> map size (subarrays (snd (insertOrUpdate m1 K V))) = map size (subarrays m1)
       \<and> (r = Inr () \<longrightarrow> (\<exists>q. findSlot m1 K = Some q \<and> value (slot_at m1 q) = V))"
proof -
  have again: "insertOrUpdate m1 K V = (r, m1)"
  proof (cases r)
    case (Inl e)
    with assms(2) insertOrUpdate_throw [of m K V e m1] show ?thesis
      by simp
  next
    case (Inr u)
    with assms(2) insertOrUpdate_stored [OF assms(1), of K V m1] obtain q where
        q: "findSlot m1 K = Some q" "valid_pos m1 q" "value (slot_at m1 q) = V"
      by auto
    hence "insertOrUpdate m1 K V = (Inr (), assign_ref m1 q V)"
      by (simp add: insertOrUpdate_cases)
    thus ?thesis
      using Inr assign_ref_same [OF q(2,3)] by simp
  qed
  moreover have "r = Inr () \<longrightarrow> (\<exists>q. findSlot m1 K = Some q \<and> value (slot_at m1 q) = V)"
    using assms(2) insertOrUpdate_stored [OF assms(1), of K V m1] by auto
  ultimately show ?thesis
    by simp
qed

text \<open>
  Claim C9 (occupancy). On a map built by the constructor and any operations, before and after
  every further operation the \<open>size\<close> of every subarray is the number of its occupied slots;
  the operation keeps the number of subarrays and every capacity, never lowers a \<open>size\<close>, and
  leaves every \<open>size\<close> at most the capacity.
\<close>

theorem size_counts_occupied_slots:
  assumes "m = run d (ElasticHashMap_ctor k0 v0 n hasher) ops"
    and "m' = step d m a"
    and "i < length (subarrays m)"
  shows "length (subarrays m') = length (subarrays m)
       \<and> capacity (subarrays m' ! i) = capacity (subarrays m ! i)
       \<and> unat (size (subarrays m ! i)) = occupancy (subarrays m ! i)
       \<and> unat (size (subarrays m' ! i)) = occupancy (subarrays m' ! i)
       \<and> size (subarrays m ! i) \<le> size (subarrays m' ! i)
       \<and> size (subarrays m' ! i) \<le> capacity (subarrays m' ! i)"
proof -
  have inv: "map_inv m"
    unfolding assms(1) by (rule reachable_inv)
  from step_inv [OF inv, of d a] have inv': "map_inv m'" and g: "grows m m'"
    by (simp_all add: assms(2))
  from g assms(3) have len: "length (subarrays m') = length (subarrays m)"
      and cap: "capacity (subarrays m' ! i) = capacity (subarrays m ! i)"
      and mono: "size (subarrays m ! i) \<le> size (subarrays m' ! i)"
    by (simp_all add: grows_def)
  have before: "unat (size (subarrays m ! i)) = occupancy (subarrays m ! i)"
    using inv assms(3) by (simp add: map_inv_def sizes_ok_nth)
  have wf': "wf_sub (subarrays m' ! i)"
      and after: "unat (size (subarrays m' ! i)) = occupancy (subarrays m' ! i)"
    using inv' assms(3) len by (simp_all add: map_inv_def sizes_ok_nth wf_map_nth)
  from size_le_capacity [OF wf' after] len cap mono before after show ?thesis
    by simp
qed

text \<open>
  Claim C10 (a key occupies at most one slot). On a map built by the constructor and any
  operations, two occupied slots that hold the same key are the same slot.
\<close>

theorem key_stored_once:
  assumes "m = run d (ElasticHashMap_ctor k0 v0 n hasher) ops"
    and "valid_pos m p" and "occupied (slot_at m p)"
    and "valid_pos m q" and "occupied (slot_at m q)"
    and "key (slot_at m p) = key (slot_at m q)"
  shows "p = q"
proof -
  have "keys_findable m"
    using reachable_inv [of d k0 v0 n hasher ops] by (simp add: assms(1) map_inv_def)
  note at_p = keys_findableD [OF this assms(2,3)] and at_q = keys_findableD [OF this assms(4,5)]
  have "Some p = findSlot m (key (slot_at m p))"
    by (rule at_p [symmetric])
  also have "\<dots> = findSlot m (key (slot_at m q))"
    by (simp only: assms(6))
  also have "\<dots> = Some q"
    by (rule at_q)
  finally show ?thesis
    by simp
qed

section \<open>Instances\<close>

theorem no_loss_after_insert_witness:
  "insertOrUpdate (run 0 (ElasticHashMap_ctor (0 :: nat) (0 :: nat) 8 of_nat) [Put 0 1]) 4 2
     = (Inr (), snd (insertOrUpdate
                      (run 0 (ElasticHashMap_ctor (0 :: nat) (0 :: nat) 8 of_nat) [Put 0 1]) 4 2))
   \<and> count (run 0 (snd (insertOrUpdate
                      (run 0 (ElasticHashMap_ctor (0 :: nat) (0 :: nat) 8 of_nat) [Put 0 1]) 4 2))
              [Put 8 3, Assign 4 9, Index 12, Put 4 5, Count 4]) 4
   \<and> (\<exists>q. findSlot (run 0 (snd (insertOrUpdate
                      (run 0 (ElasticHashMap_ctor (0 :: nat) (0 :: nat) 8 of_nat) [Put 0 1]) 4 2))
              [Put 8 3, Assign 4 9, Index 12, Put 4 5, Count 4]) 4 = Some q
          \<and> value (slot_at (run 0 (snd (insertOrUpdate
                      (run 0 (ElasticHashMap_ctor (0 :: nat) (0 :: nat) 8 of_nat) [Put 0 1]) 4 2))
              [Put 8 3, Assign 4 9, Index 12, Put 4 5, Count 4]) q) = 5)"
  (is "insertOrUpdate ?m0 4 2 = _ \<and> count (run 0 ?m1 ?ops) 4 \<and> _")
proof -
  have "fst (insertOrUpdate ?m0 4 2) = Inr ()"
    by code_simp
  hence returned: "insertOrUpdate ?m0 4 2 = (Inr (), ?m1)"
    by (simp add: prod_eq_iff)
  from no_loss_after_insert [where ops = ?ops, OF refl returned refl] returned show ?thesis
    by auto
qed

theorem put_idempotent_witness:
  "wf_map (ElasticHashMap_ctor (0 :: nat) (0 :: nat) 8 of_nat)
   \<and> fst (insertOrUpdate (ElasticHashMap_ctor (0 :: nat) (0 :: nat) 8 of_nat) 5 7) = Inr ()
   \<and> insertOrUpdate (snd (insertOrUpdate (ElasticHashMap_ctor (0 :: nat) (0 :: nat) 8 of_nat) 5 7)) 5 7
       = (Inr (), snd (insertOrUpdate (ElasticHashMap_ctor (0 :: nat) (0 :: nat) 8 of_nat) 5 7))"
  (is "wf_map ?m \<and> _")
proof -
  have wf: "wf_map ?m"
    by code_simp
  have ok: "fst (insertOrUpdate ?m 5 7) = Inr ()"
    by code_simp
  hence "insertOrUpdate ?m 5 7 = (Inr (), snd (insertOrUpdate ?m 5 7))"
    by (simp add: prod_eq_iff)
  from put_idempotent [OF wf this] wf ok show ?thesis
    by simp
qed

theorem size_counts_occupied_slots_witness:
  "(0 :: nat) < length (subarrays (run 0 (ElasticHashMap_ctor (0 :: nat) (0 :: nat) 8 of_nat) [Put 0 1]))
   \<and> unat (size (subarrays (step 0 (run 0 (ElasticHashMap_ctor (0 :: nat) (0 :: nat) 8 of_nat) [Put 0 1])
                              (Put 4 2)) ! 0))
       = occupancy (subarrays (step 0 (run 0 (ElasticHashMap_ctor (0 :: nat) (0 :: nat) 8 of_nat) [Put 0 1])
                              (Put 4 2)) ! 0)
   \<and> size (subarrays (run 0 (ElasticHashMap_ctor (0 :: nat) (0 :: nat) 8 of_nat) [Put 0 1]) ! 0)
       \<le> size (subarrays (step 0 (run 0 (ElasticHashMap_ctor (0 :: nat) (0 :: nat) 8 of_nat) [Put 0 1])
                              (Put 4 2)) ! 0)
   \<and> size (subarrays (step 0 (run 0 (ElasticHashMap_ctor (0 :: nat) (0 :: nat) 8 of_nat) [Put 0 1])
                              (Put 4 2)) ! 0)
       \<le> capacity (subarrays (step 0 (run 0 (ElasticHashMap_ctor (0 :: nat) (0 :: nat) 8 of_nat) [Put 0 1])
                              (Put 4 2)) ! 0)"
  (is "_ < length (subarrays ?m) \<and> _")
proof -
  have len: "0 < length (subarrays ?m)"
    by code_simp
  from size_counts_occupied_slots [where a = "Put 4 2" and d = 0, OF refl refl len] len show ?thesis
    by blast
qed

theorem key_stored_once_witness:
  "valid_pos (run 0 (ElasticHashMap_ctor (0 :: nat) (0 :: nat) 8 of_nat) [Put 0 1, Put 4 2]) (0, 1)
   \<and> occupied (slot_at (run 0 (ElasticHashMap_ctor (0 :: nat) (0 :: nat) 8 of_nat) [Put 0 1, Put 4 2]) (0, 1))
   \<and> key (slot_at (run 0 (ElasticHashMap_ctor (0 :: nat) (0 :: nat) 8 of_nat) [Put 0 1, Put 4 2]) (0, 1)) = 4
   \<and> findSlot (run 0 (ElasticHashMap_ctor (0 :: nat) (0 :: nat) 8 of_nat) [Put 0 1, Put 4 2]) 4
       = Some (0 :: nat, 1 :: nat)
   \<and> (0 :: nat, 1 :: nat) = (0, 1)"
  (is "valid_pos ?m (0, 1) \<and> _")
proof -
  have v: "valid_pos ?m (0, 1)" and o: "occupied (slot_at ?m (0, 1))"
      and k: "key (slot_at ?m (0, 1)) = 4" and f: "findSlot ?m 4 = Some (0, 1)"
    by code_simp+
  from key_stored_once [OF refl v o v o refl] v o k f show ?thesis
    by blast
qed

end
